theory Spec2Isabelle
  imports Complex_Main
begin

section \<open>Geometry of the proxy view: points, rectangles, sides and anchors\<close>

text \<open>
  The numbers of the TypeScript source are IEEE doubles; they are modelled as exact reals,
  so every equality test of the source (\<^verbatim>\<open>d == 0\<close>) is an exact one here, and a value
  that would be \<^verbatim>\<open>NaN\<close> in the source is written out as a branch of its own wherever the
  source can produce one. Rounding can change which branch of the solver an input takes, so
  what is stated of the solver is stated of the coefficients and the roots that it computes.

  \<^verbatim>\<open>type Point = { x: number; y: number }\<close>; the \<^verbatim>\<open>Bounds\<close> of sprotty-protocol are
  a point with a dimension.
\<close>

record point =
  x :: real
  y :: real

record bounds = point +
  width :: real
  height :: real

datatype Sides = N | E | S | W

datatype Anchors = towardsMiddle | center | towardsEdge | topLeft

text \<open>
  Modelled from the spec: \<^verbatim>\<open>isInBounds\<close> of \<^verbatim>\<open>proxy-view-util\<close>, which is imported by
  the source but is not part of it. The spec calls it the standard overlap test of two
  axis-aligned rectangles.
\<close>

definition isInBounds :: "'a bounds_scheme \<Rightarrow> 'b bounds_scheme \<Rightarrow> bool" where
  "isInBounds b1 b2 =
     ((x b1 + width b1 \<ge> x b2 \<and> x b1 \<le> x b2 + width b2) \<and>
      (y b1 + height b1 \<ge> y b2 \<and> y b1 \<le> y b2 + height b2))"

text \<open>
  Modelled from the spec: \<^verbatim>\<open>asBounds\<close> of \<^verbatim>\<open>proxy-view-util\<close>, which turns a point
  into the rectangle of no extent at that point, so that "the point lies inside the
  viewport" is an overlap test.
\<close>

definition asBounds :: "point \<Rightarrow> bounds" where
  "asBounds p = \<lparr>x = x p, y = y p, width = 0, height = 0\<rparr>"

text \<open>\<^verbatim>\<open>ProxyView.isCrossingBounds\<close>\<close>

definition isCrossingBounds :: "'a bounds_scheme \<Rightarrow> 'b bounds_scheme \<Rightarrow> bool" where
  "isCrossingBounds b1 b2 =
     (isInBounds b1 b2
      \<and> \<not> ((x b1 \<le> x b2 \<and> x b1 + width b1 \<ge> x b2 + width b2) \<and>
            (y b1 \<le> y b2 \<and> y b1 + height b1 \<ge> y b2 + height b2))
      \<and> \<not> ((x b1 \<ge> x b2 \<and> x b1 + width b1 \<le> x b2 + width b2) \<and>
            (y b1 \<ge> y b2 \<and> y b1 + height b1 \<le> y b2 + height b2)))"

text \<open>
  \<^verbatim>\<open>getBoundsFromPoints\<close>. \<^verbatim>\<open>Math.min(...xs)\<close> folds \<^verbatim>\<open>min\<close> over its arguments. On the
  empty list the source returns the box of \<^verbatim>\<open>Infinity\<close> and \<^verbatim>\<open>-Infinity\<close>, which is no
  rectangle of real numbers: that case is \<open>None\<close>.
\<close>

definition getBoundsFromPoints :: "point list \<Rightarrow> bounds option" where
  "getBoundsFromPoints points =
     (case points of
        [] \<Rightarrow> None
      | p # ps \<Rightarrow>
          (let xarr = map x ps; yarr = map y ps;
               xmin = fold min xarr (x p);
               ymin = fold min yarr (y p);
               xmax = fold max xarr (x p);
               ymax = fold max yarr (y p)
           in Some \<lparr>x = xmin, y = ymin, width = xmax - xmin, height = ymax - ymin\<rparr>))"

section \<open>The Bezier root solver (\<^verbatim>\<open>proxy-view-bezier.ts\<close>)\<close>

text \<open>
  Reading a field of \<^verbatim>\<open>undefined\<close> throws a \<^verbatim>\<open>TypeError\<close>: that is what the source
  does when a list of control points has fewer than four entries. A function that can throw
  returns \<open>error + 'a\<close>.
\<close>

datatype error = TypeError

definition bindE :: "error + 'a \<Rightarrow> ('a \<Rightarrow> error + 'b) \<Rightarrow> error + 'b" where
  "bindE m f = (case m of Inl e \<Rightarrow> Inl e | Inr v \<Rightarrow> f v)"

fun mapE :: "('a \<Rightarrow> error + 'b) \<Rightarrow> 'a list \<Rightarrow> error + 'b list" where
  "mapE f [] = Inr []"
| "mapE f (v # vs) = bindE (f v) (\<lambda>w. bindE (mapE f vs) (\<lambda>ws. Inr (w # ws)))"

record Line =
  p1 :: point
  p2 :: point

text \<open>\<^verbatim>\<open>Math.atan2(dy, dx)\<close>: the angle of the vector \<open>(dx, dy)\<close>, in \<open>(-\<pi>, \<pi>]\<close>.\<close>

definition atan2 :: "real \<Rightarrow> real \<Rightarrow> real" where
  "atan2 dy dx =
     (if dx > 0 then arctan (dy / dx)
      else if dx < 0 \<and> dy \<ge> 0 then arctan (dy / dx) + pi
      else if dx < 0 \<and> dy < 0 then arctan (dy / dx) - pi
      else if dy > 0 then pi / 2
      else if dy < 0 then - pi / 2
      else 0)"

definition align :: "point list \<Rightarrow> Line \<Rightarrow> point list" where
  "align points line =
     (let tx = x (p1 line);
          ty = y (p1 line);
          a = - atan2 (y (p2 line) - ty) (x (p2 line) - tx);
          d = (\<lambda>v. \<lparr>x = (x v - tx) * cos a - (y v - ty) * sin a,
                    y = (x v - tx) * sin a + (y v - ty) * cos a\<rparr>)
      in map d points)"

text \<open>\<^verbatim>\<open>crt\<close>: the real cube root; \<^verbatim>\<open>pow(v, 1 / 3)\<close> is only taken of \<open>v \<ge> 0\<close>.\<close>

definition crt :: "real \<Rightarrow> real" where
  "crt v = (if v < 0 then - ((- v) powr (1 / 3)) else v powr (1 / 3))"

definition reduce :: "real \<Rightarrow> bool" where
  "reduce u = (0 \<le> u \<and> u \<le> 1)"

text \<open>
  The cubic branch of \<^verbatim>\<open>roots\<close>, after \<^verbatim>\<open>a /= d; b /= d; c /= d\<close>: the roots of
  \<open>u\<^sup>3 + a u\<^sup>2 + b u + c\<close> by the sign of the discriminant. With a negative discriminant
  \<open>p\<close> is negative, so \<open>mp33\<close> and \<open>r\<close> are positive and no square root of a negative
  number and no division by zero is taken.
\<close>

definition cubicRoots :: "real \<Rightarrow> real \<Rightarrow> real \<Rightarrow> real list" where
  "cubicRoots a b c =
     (let p = (3 * b - a * a) / 3;
          p3 = p / 3;
          q = (2 * a * a * a - 9 * a * b + 27 * c) / 27;
          q2 = q / 2;
          discriminant = q2 * q2 + p3 * p3 * p3
      in if discriminant < 0 then
           (let mp3 = - p / 3;
                mp33 = mp3 * mp3 * mp3;
                r = sqrt mp33;
                t' = - q / (2 * r);
                cosphi = (if t' < - 1 then - 1 else if t' > 1 then 1 else t');
                phi = arccos cosphi;
                crtr = crt r;
                t1 = 2 * crtr;
                x1 = t1 * cos (phi / 3) - a / 3;
                x2 = t1 * cos ((phi + 2 * pi) / 3) - a / 3;
                x3 = t1 * cos ((phi + 2 * 2 * pi) / 3) - a / 3
            in filter reduce [x1, x2, x3])
         else if discriminant = 0 then
           (let u1 = (if q2 < 0 then crt (- q2) else - crt q2);
                x1 = 2 * u1 - a / 3;
                x2 = - u1 - a / 3
            in filter reduce [x1, x2])
         else
           (let sd = sqrt discriminant;
                u1 = crt (- q2 + sd);
                v1 = crt (q2 + sd)
            in filter reduce [u1 - v1 - a / 3]))"

text \<open>
  The degenerate branches of \<^verbatim>\<open>roots\<close> (\<^verbatim>\<open>d == 0\<close>). The square root of a negative
  number is \<^verbatim>\<open>NaN\<close> in the source; both quotients are then \<^verbatim>\<open>NaN\<close>, every comparison
  with them is false, and \<^verbatim>\<open>filter(reduce)\<close> drops them: the result is the empty list.
\<close>

definition degenerateRoots :: "real \<Rightarrow> real \<Rightarrow> real \<Rightarrow> real list" where
  "degenerateRoots a b c =
     (if a = 0 then
        (if b = 0 then []
         else filter reduce [- c / b])
      else if b * b - 4 * a * c < 0 then []
      else
        (let q = sqrt (b * b - 4 * a * c);
             a2 = 2 * a
         in filter reduce [(q - b) / a2, (- b - q) / a2]))"

text \<open>
  \<^verbatim>\<open>roots\<close>. \<^verbatim>\<open>aligned[3].y\<close> throws when there are fewer than four points; further
  points are never read.
\<close>

definition roots :: "point list \<Rightarrow> Line \<Rightarrow> error + real list" where
  "roots points line =
     (let aligned = align points line
      in if length aligned < 4 then Inl TypeError
         else
           (let pa = y (aligned ! 0);
                pb = y (aligned ! 1);
                pc = y (aligned ! 2);
                pd = y (aligned ! 3);
                d = - pa + 3 * pb - 3 * pc + pd;
                a = 3 * pa - 6 * pb + 3 * pc;
                b = - 3 * pa + 3 * pb;
                c = pa
            in if d = 0 then Inr (degenerateRoots a b c)
               else Inr (cubicRoots (a / d) (b / d) (c / d))))"

text \<open>\<^verbatim>\<open>computeCubic\<close>; \<^verbatim>\<open>p[3].x\<close> throws when there are fewer than four points.\<close>

definition computeCubic :: "real \<Rightarrow> point list \<Rightarrow> error + point" where
  "computeCubic u p =
     (if length p < 4 then Inl TypeError
      else
        (let mt = 1 - u;
             a = mt * mt * mt;
             b = mt * mt * u * 3;
             c = mt * u * u * 3;
             d = u * u * u
         in Inr \<lparr>x = a * x (p ! 0) + b * x (p ! 1) + c * x (p ! 2) + d * x (p ! 3),
                 y = a * y (p ! 0) + b * y (p ! 1) + c * y (p ! 2) + d * y (p ! 3)\<rparr>))"

text \<open>The entries \<^verbatim>\<open>{point, t}\<close> of the list that \<^verbatim>\<open>getValueAt\<close> returns.\<close>

record curvePoint =
  point :: point
  t :: real

definition getValueAt :: "real \<Rightarrow> point list \<Rightarrow> nat \<Rightarrow> error + curvePoint list" where
  "getValueAt value points axis =
     (let xcoords = map (\<lambda>p. \<lparr>x = y p - value, y = x p - value\<rparr>) points;
          line = (if axis = 1
                  then \<lparr>p1 = \<lparr>x = 0, y = 0\<rparr>, p2 = \<lparr>x = 0, y = 1\<rparr>\<rparr>
                  else \<lparr>p1 = \<lparr>x = 0, y = 0\<rparr>, p2 = \<lparr>x = 1, y = 0\<rparr>\<rparr>)
      in bindE (roots xcoords line)
           (mapE (\<lambda>u. bindE (computeCubic u points) (\<lambda>pt. Inr \<lparr>point = pt, t = u\<rparr>))))"

text \<open>The coordinate of a point on an axis, as \<^verbatim>\<open>getValueAt\<close> numbers the axes.\<close>

definition coord :: "nat \<Rightarrow> point \<Rightarrow> real" where
  "coord axis p = (if axis = 1 then y p else x p)"

text \<open>
  The coefficients of the polynomial \<open>d u\<^sup>3 + a u\<^sup>2 + b u + c\<close> that \<^verbatim>\<open>roots\<close> solves,
  named so that the claims about the solver can speak of them.
\<close>

definition coefficients :: "point list \<Rightarrow> Line \<Rightarrow> real \<times> real \<times> real \<times> real" where
  "coefficients points line =
     (let aligned = align points line;
          pa = y (aligned ! 0);
          pb = y (aligned ! 1);
          pc = y (aligned ! 2);
          pd = y (aligned ! 3)
      in (- pa + 3 * pb - 3 * pc + pd, 3 * pa - 6 * pb + 3 * pc, - 3 * pa + 3 * pb, pa))"

section \<open>The graph model and the proxy view (\<^verbatim>\<open>ProxyView\<close>)\<close>

text \<open>
  What the proxy view reads of a graph element. An edge ends at a node or at a port, so
  \<open>isSKNode\<close> records the outcome of \<^verbatim>\<open>instanceof SKNode\<close>. \<open>ref\<close> is the identity of
  the object, for the reference comparison \<^verbatim>\<open>node != root\<close>; an object made by
  \<^verbatim>\<open>Object.create\<close> is a new one, equal to no object of the graph, and has \<open>ref = None\<close>.
  \<open>proxyRendering\<close> is the property \<^verbatim>\<open>PROXY_RENDERING_PROPERTY\<close>, when present, with the
  bounds \<^verbatim>\<open>klighd.lsp.calculated.bounds\<close> of the rendering that the renderer finds in it
  (\<^verbatim>\<open>getKRendering\<close> belongs to the renderer), when it finds one.
\<close>

type_synonym KGraphData = nat

datatype SKNode = SKNode
  (ref: "nat option")
  (isSKNode: bool)
  (nbounds: bounds)
  (absoluteX: real)
  (absoluteY: real)
  (proxyRendering: "(KGraphData \<times> bounds option) option")
  (data: KGraphData)
  (parent: "SKNode option")

fun objectCreate :: "SKNode \<Rightarrow> SKNode" where
  "objectCreate (SKNode r isn b ax ay pr dat par) = SKNode None isn b ax ay pr dat par"

fun withData :: "SKNode \<Rightarrow> KGraphData \<Rightarrow> SKNode" where
  "withData (SKNode r isn b ax ay pr dat par) dat' = SKNode r isn b ax ay pr dat' par"

definition sameObject :: "SKNode \<Rightarrow> SKNode \<Rightarrow> bool" where
  "sameObject n m = (ref n \<noteq> None \<and> ref n = ref m)"

text \<open>
  An edge. \<open>canvasBounds\<close> is what \<^verbatim>\<open>getCanvasBounds(edge)\<close> of \<^verbatim>\<open>skgraph-utils\<close>
  returns for it: the bounds of the edge in the coordinates of the canvas.
\<close>

record SKEdge =
  source :: SKNode
  target :: SKNode
  routingPoints :: "point list"
  ebounds :: bounds
  canvasBounds :: bounds

text \<open>The tree of the model, from a node down to its children.\<close>

datatype SKChild = Node SKNode "SKChild list" | Edge SKEdge | Other

record Canvas = bounds +
  zoom :: real

text \<open>The options of the proxy view that the geometry reads.\<close>

record ProxyView =
  sizePercentage :: real
  originalNodeScale :: bool
  capScaleToOne :: bool
  useSynthesisProxyRendering :: bool

record sidedPoint = curvePoint +
  side :: Sides

text \<open>
  \<^verbatim>\<open>CrossingPoint\<close>; it is built as \<^verbatim>\<open>{...cp, incoming, ...}\<close>, so it carries the
  parameter \<open>t\<close> of its root as well.
\<close>

record CrossingPoint = sidedPoint +
  incoming :: bool
  "section" :: nat
  proxyPoint :: point
  node :: SKNode
  nodeBounds :: bounds
  anchor :: Anchors

record Crossing =
  edge :: SKEdge
  pointBounds :: "bounds list"
  bezierPoints :: "point list list"
  crossingPoints :: "CrossingPoint list"

record proxySize =
  proxyWidth :: real
  proxyHeight :: real
  scale :: real

text \<open>
  \<^verbatim>\<open>transformWidthHeight\<close>. For bounds of width or height zero the source divides by
  zero and goes on with \<^verbatim>\<open>Infinity\<close> or \<^verbatim>\<open>NaN\<close>; the quotient of the model is only
  that of the source when both are not zero.
\<close>

definition transformWidthHeight ::
  "ProxyView \<Rightarrow> 'a bounds_scheme \<Rightarrow> 'b Canvas_scheme \<Rightarrow> proxySize" where
  "transformWidthHeight pv proxyBounds canvas =
     (let size = min (width canvas) (height canvas) * sizePercentage pv;
          proxyWidthScale = size / width proxyBounds;
          proxyHeightScale = size / height proxyBounds;
          scale0 = (if originalNodeScale pv then zoom canvas
                    else min proxyWidthScale proxyHeightScale);
          scale1 = (if capScaleToOne pv then min 1 scale0 else scale0)
      in \<lparr>proxyWidth = width proxyBounds * scale1,
          proxyHeight = height proxyBounds * scale1,
          scale = scale1\<rparr>)"

text \<open>\<^verbatim>\<open>isIncoming\<close>\<close>

definition isIncoming :: "real \<Rightarrow> 'a bounds_scheme \<Rightarrow> point list \<Rightarrow> error + bool" where
  "isIncoming u bnds bPoints =
     (let newt = (if u > 0.5 then u - 0.03 else u + 0.03)
      in bindE (computeCubic newt bPoints)
           (\<lambda>newPoint.
              let result = isInBounds (asBounds newPoint) bnds
              in Inr (if u > 0.5 then \<not> result else result)))"

text \<open>\<^verbatim>\<open>getSynthesisProxyRenderingSingle\<close>\<close>

definition getSynthesisProxyRenderingSingle :: "ProxyView \<Rightarrow> SKNode \<Rightarrow> SKNode \<times> bounds" where
  "getSynthesisProxyRenderingSingle pv nd =
     (if useSynthesisProxyRendering pv then
        (case proxyRendering nd of
           Some (dat, Some calculated) \<Rightarrow> (withData nd dat, calculated)
         | _ \<Rightarrow> (nd, nbounds nd))
      else (nd, nbounds nd))"

text \<open>
  The filter with the grace offset, which \<^verbatim>\<open>getCrossings\<close> and
  \<^verbatim>\<open>updateProxyPlacementPoints\<close> both apply to the points they find.
\<close>

definition graceFilter :: "'a bounds_scheme \<Rightarrow> 'b curvePoint_scheme list \<Rightarrow> 'b curvePoint_scheme list" where
  "graceFilter b2 cPoints =
     (let grace_offset = 1
      in if length cPoints > 0
         then filter (\<lambda>p. x (point p) \<ge> x b2 - grace_offset
                         \<and> x (point p) \<le> x b2 + width b2 + grace_offset
                         \<and> y (point p) \<ge> y b2 - grace_offset
                         \<and> y (point p) \<le> y b2 + height b2 + grace_offset) cPoints
         else cPoints)"

definition withSide :: "Sides \<Rightarrow> curvePoint \<Rightarrow> sidedPoint" where
  "withSide sd p = \<lparr>point = point p, t = t p, side = sd\<rparr>"

text \<open>
  The body of the second loop of \<^verbatim>\<open>getCrossings\<close>, for the segment \<open>i\<close> of an edge: the
  points where the segment meets the four lines of the canvas, filtered, each made a
  \<^verbatim>\<open>CrossingPoint\<close>.
\<close>

definition boundaryPoints :: "bounds \<Rightarrow> 'a Canvas_scheme \<Rightarrow> point list \<Rightarrow> error + sidedPoint list" where
  "boundaryPoints b1 b2 bPoints =
     bindE (if x b1 \<le> x b2 \<and> x b1 + width b1 \<ge> x b2
            then bindE (getValueAt (x b2) bPoints 0) (\<lambda>a. Inr (map (withSide W) a))
            else Inr [])
       (\<lambda>cw. bindE (if x b1 \<le> x b2 + width b2 \<and> x b1 + width b1 \<ge> x b2 + width b2
                    then bindE (getValueAt (x b2 + width b2) bPoints 0) (\<lambda>a. Inr (map (withSide E) a))
                    else Inr [])
       (\<lambda>ce. bindE (if y b1 \<le> y b2 \<and> y b1 + height b1 \<ge> y b2
                    then bindE (getValueAt (y b2) bPoints 1) (\<lambda>a. Inr (map (withSide N) a))
                    else Inr [])
       (\<lambda>cn. bindE (if y b1 \<le> y b2 + height b2 \<and> y b1 + height b1 \<ge> y b2 + height b2
                    then bindE (getValueAt (y b2 + height b2) bPoints 1) (\<lambda>a. Inr (map (withSide S) a))
                    else Inr [])
       (\<lambda>cs. Inr (cw @ ce @ cn @ cs)))))"

definition makeCrossingPoint ::
  "ProxyView \<Rightarrow> 'a Canvas_scheme \<Rightarrow> SKEdge \<Rightarrow> nat \<Rightarrow> point list \<Rightarrow> sidedPoint \<Rightarrow> error + CrossingPoint" where
  "makeCrossingPoint pv canvasCRF e i bPoints cp =
     bindE (isIncoming (t cp) canvasCRF bPoints)
       (\<lambda>inc.
          let nd = (if inc then objectCreate (source e) else objectCreate (target e));
              (proxyNode, proxyBounds) = getSynthesisProxyRenderingSingle pv nd;
              proxyPt = point cp
          in Inr \<lparr>point = point cp, t = t cp, side = side cp, incoming = inc, section = i,
                  proxyPoint = proxyPt, node = proxyNode, nodeBounds = proxyBounds,
                  anchor = towardsEdge\<rparr>)"

definition segmentCrossings ::
  "ProxyView \<Rightarrow> 'a Canvas_scheme \<Rightarrow> SKEdge \<Rightarrow> nat \<Rightarrow> bounds \<Rightarrow> point list \<Rightarrow> error + CrossingPoint list" where
  "segmentCrossings pv canvasCRF e i pointBound bPoints =
     (if isCrossingBounds pointBound canvasCRF then
        bindE (boundaryPoints pointBound canvasCRF bPoints)
          (\<lambda>cPoints. mapE (makeCrossingPoint pv canvasCRF e i bPoints) (graceFilter canvasCRF cPoints))
      else Inr [])"

text \<open>
  \<^verbatim>\<open>rpoints.slice(i * 3, i * 3 + 4)\<close>. Each slice of a route of \<open>3n + 1\<close> points has
  four points, so its bounding box exists.
\<close>

definition slice :: "'a list \<Rightarrow> nat \<Rightarrow> nat \<Rightarrow> 'a list" where
  "slice vs i j = take (j - i) (drop i vs)"

text \<open>
  The body of the loop of \<^verbatim>\<open>getCrossings\<close> over the edges. The state of the loop is the
  list \<^verbatim>\<open>crossings\<close> and the lines written with \<^verbatim>\<open>console.log\<close>.
\<close>

definition edgeCrossings ::
  "ProxyView \<Rightarrow> 'a Canvas_scheme \<Rightarrow> SKEdge \<Rightarrow> Crossing list \<times> string list
     \<Rightarrow> error + Crossing list \<times> string list" where
  "edgeCrossings pv canvasCRF e st =
     (let edgeBounds = canvasBounds e;
          offsetx = x edgeBounds - x (ebounds e);
          offsety = y edgeBounds - y (ebounds e);
          rpointsWithoutOffset = routingPoints e;
          rpoints = map (\<lambda>p. \<lparr>x = x p + offsetx, y = y p + offsety\<rparr>) rpointsWithoutOffset
      in if length rpoints mod 3 = 1 \<and> length rpoints \<ge> 4 then
           (let bezierPts = map (\<lambda>i. slice rpoints (i * 3) (i * 3 + 4)) [0 ..< length rpoints div 3];
                pointBnds = map (\<lambda>bpoints. the (getBoundsFromPoints bpoints)) bezierPts
            in bindE (mapE (\<lambda>i. segmentCrossings pv canvasCRF e i (pointBnds ! i) (bezierPts ! i))
                        [0 ..< length pointBnds])
                 (\<lambda>found. Inr (fst st @ [\<lparr>edge = e, pointBounds = pointBnds, bezierPoints = bezierPts,
                                          crossingPoints = concat found\<rparr>],
                                snd st)))
         else Inr (fst st, snd st @ [''proxy: Edge hat nicht 3n+1 n>0 Routing Punkte'']))"

fun foldE :: "('a \<Rightarrow> 's \<Rightarrow> error + 's) \<Rightarrow> 'a list \<Rightarrow> 's \<Rightarrow> error + 's" where
  "foldE f [] st = Inr st"
| "foldE f (v # vs) st = bindE (f v st) (foldE f vs)"

text \<open>\<^verbatim>\<open>getCrossings\<close>: the crossings, with the lines it has written to the console.\<close>

definition getCrossings ::
  "ProxyView \<Rightarrow> SKEdge list \<Rightarrow> 'a Canvas_scheme \<Rightarrow> error + Crossing list \<times> string list" where
  "getCrossings pv proxyEdges canvasCRF = foldE (edgeCrossings pv canvasCRF) proxyEdges ([], [])"

text \<open>
  The older \<^verbatim>\<open>getCrossings\<close> of \<^verbatim>\<open>proxy-view.tsx\<close>. It pushes one crossing for every
  segment that has crossing points, made of the points and their directions only.
\<close>

record directedPoint =
  point' :: point
  incoming' :: bool

record segmentCrossing =
  edge' :: SKEdge
  crossingPoints' :: "directedPoint list"

definition boundaryPoints_tsx :: "bounds \<Rightarrow> 'a Canvas_scheme \<Rightarrow> point list \<Rightarrow> error + curvePoint list" where
  "boundaryPoints_tsx b1 b2 bPoints =
     (let offsetx = 0; offsety = 0
      in bindE (if x b1 \<le> x b2 \<and> x b1 + width b1 \<ge> x b2
                then getValueAt (x b2 + offsetx) bPoints 0 else Inr [])
           (\<lambda>cw. bindE (if x b1 \<le> x b2 + width b2 \<and> x b1 + width b1 \<ge> x b2 + width b2
                        then getValueAt (x b2 + width b2 - offsetx) bPoints 0 else Inr [])
           (\<lambda>ce. bindE (if y b1 \<le> y b2 \<and> y b1 + height b1 \<ge> y b2
                        then getValueAt (y b2 + offsety) bPoints 1 else Inr [])
           (\<lambda>cn. bindE (if y b1 \<le> y b2 + height b2 \<and> y b1 + height b1 \<ge> y b2 + height b2
                        then getValueAt (y b2 + height b2 - offsety) bPoints 1 else Inr [])
           (\<lambda>cs. Inr (cw @ ce @ cn @ cs))))))"

definition segmentCrossings_tsx ::
  "'a Canvas_scheme \<Rightarrow> SKEdge \<Rightarrow> bounds \<Rightarrow> point list \<Rightarrow> error + segmentCrossing list" where
  "segmentCrossings_tsx canvasCRF e pointBound bPoints =
     (if isCrossingBounds pointBound canvasCRF then
        bindE (boundaryPoints_tsx pointBound canvasCRF bPoints)
          (\<lambda>found.
             let cPoints = graceFilter canvasCRF found
             in if length cPoints > 0 then
                  bindE (mapE (\<lambda>cp. bindE (isIncoming (t cp) canvasCRF bPoints)
                                       (\<lambda>inc. Inr \<lparr>point' = point cp, incoming' = inc\<rparr>)) cPoints)
                    (\<lambda>cross. Inr [\<lparr>edge' = e, crossingPoints' = cross\<rparr>])
                else Inr [])
      else Inr [])"

definition edgeCrossings_tsx ::
  "'a Canvas_scheme \<Rightarrow> SKEdge \<Rightarrow> segmentCrossing list \<times> string list
     \<Rightarrow> error + segmentCrossing list \<times> string list" where
  "edgeCrossings_tsx canvasCRF e st =
     (let edgeBounds = canvasBounds e;
          offsetx = x edgeBounds - x (ebounds e);
          offsety = y edgeBounds - y (ebounds e);
          rpointsWithoutOffset = routingPoints e;
          rpoints = map (\<lambda>p. \<lparr>x = x p + offsetx, y = y p + offsety\<rparr>) rpointsWithoutOffset
      in if length rpoints mod 3 = 1 \<and> length rpoints \<ge> 4 then
           (let bezierPts = map (\<lambda>i. slice rpoints (i * 3) (i * 3 + 4)) [0 ..< length rpoints div 3];
                pointBnds = map (\<lambda>bpoints. the (getBoundsFromPoints bpoints)) bezierPts
            in bindE (mapE (\<lambda>i. segmentCrossings_tsx canvasCRF e (pointBnds ! i) (bezierPts ! i))
                        [0 ..< length pointBnds])
                 (\<lambda>found. Inr (fst st @ concat found, snd st)))
         else Inr (fst st, snd st @ [''proxy: Edge hat nicht 3n+1 n>0 Routing Punkte'']))"

definition getCrossings_tsx ::
  "SKEdge list \<Rightarrow> 'a Canvas_scheme \<Rightarrow> error + segmentCrossing list \<times> string list" where
  "getCrossings_tsx proxyEdges canvasCRF = foldE (edgeCrossings_tsx canvasCRF) proxyEdges ([], [])"

text \<open>
  A node of the tree with its children, and \<^verbatim>\<open>getPossibleEdges\<close>: the loop over the
  children of a node, which descends into every child node that has children.
\<close>

type_synonym SKTree = "SKNode \<times> SKChild list"

fun childEdges :: "SKChild list \<Rightarrow> 'a Canvas_scheme \<Rightarrow> SKEdge list" where
  "childEdges [] canvasCRF = []"
| "childEdges (Edge e # rest) canvasCRF =
     (if isCrossingBounds (canvasBounds e) canvasCRF then [e] else []) @ childEdges rest canvasCRF"
| "childEdges (Node n cs # rest) canvasCRF =
     (if length cs > 0 then childEdges cs canvasCRF else []) @ childEdges rest canvasCRF"
| "childEdges (Other # rest) canvasCRF = childEdges rest canvasCRF"

definition getPossibleEdges :: "SKTree \<Rightarrow> 'a Canvas_scheme \<Rightarrow> SKEdge list" where
  "getPossibleEdges currRoot canvasCRF = childEdges (snd currRoot) canvasCRF"

text \<open>\<^verbatim>\<open>getAnchorOffsets\<close>\<close>

definition getAnchorOffsets :: "'a bounds_scheme \<Rightarrow> Sides \<Rightarrow> Anchors \<Rightarrow> real \<times> real" where
  "getAnchorOffsets bnds sd anc =
     (if anc = towardsMiddle then
        (if sd = N then (width bnds * 0.5, height bnds)
         else if sd = E then (0, height bnds * 0.5)
         else if sd = S then (width bnds * 0.5, 0)
         else (width bnds, height bnds * 0.5))
      else if anc = center then (width bnds * 0.5, height bnds * 0.5)
      else if anc = towardsEdge then
        (if sd = N then (width bnds * 0.5, 0)
         else if sd = E then (width bnds, height bnds * 0.5)
         else if sd = S then (width bnds * 0.5, height bnds)
         else (0, height bnds * 0.5))
      else (0, 0))"

text \<open>
  \<^verbatim>\<open>applyAnchors\<close>. Every crossing point owns its \<^verbatim>\<open>proxyPoint\<close> (it is made for it by
  \<^verbatim>\<open>getCrossings\<close> or by \<^verbatim>\<open>computeCubic\<close>), so the update in place is an update of the
  one crossing point.
\<close>

definition applyAnchor :: "ProxyView \<Rightarrow> 'a Canvas_scheme \<Rightarrow> CrossingPoint \<Rightarrow> CrossingPoint" where
  "applyAnchor pv canvas cp =
     (let sz = transformWidthHeight pv (nodeBounds cp) canvas;
          bnds = \<lparr>x = 0, y = 0, width = proxyWidth sz, height = proxyHeight sz\<rparr>;
          (offsetx, offsety) = getAnchorOffsets bnds (side cp) (anchor cp)
      in cp\<lparr>proxyPoint := \<lparr>x = x (proxyPoint cp) - offsetx, y = y (proxyPoint cp) - offsety\<rparr>,
            anchor := topLeft\<rparr>)"

definition applyAnchors :: "ProxyView \<Rightarrow> Crossing list \<Rightarrow> 'a Canvas_scheme \<Rightarrow> Crossing list" where
  "applyAnchors pv crossings canvas =
     map (\<lambda>crossing. crossing\<lparr>crossingPoints := map (applyAnchor pv canvas) (crossingPoints crossing)\<rparr>)
       crossings"

text \<open>
  \<^verbatim>\<open>updateProxyPlacementPoints\<close>. The rectangle \<^verbatim>\<open>bound\<close> in which a better anchor is
  looked for:
\<close>

definition shrunkBound :: "Sides \<Rightarrow> real \<Rightarrow> real \<Rightarrow> 'a Canvas_scheme \<Rightarrow> bounds" where
  "shrunkBound sd offsetx offsety canvasCRF =
     (if sd = N \<or> sd = S
      then \<lparr>x = x canvasCRF, y = y canvasCRF + offsety,
            width = width canvasCRF, height = height canvasCRF - 2 * offsety\<rparr>
      else \<lparr>x = x canvasCRF + offsetx, y = y canvasCRF,
            width = width canvasCRF - 2 * offsetx, height = height canvasCRF\<rparr>)"

text \<open>The points of one segment on the side \<open>sd\<close> of \<^verbatim>\<open>bound\<close>, filtered.\<close>

definition anchorCandidates :: "bounds \<Rightarrow> Sides \<Rightarrow> point list \<Rightarrow> error + curvePoint list" where
  "anchorCandidates bound sd bPoints =
     bindE (if sd = N then getValueAt (y bound) bPoints 1
            else if sd = E then getValueAt (x bound + width bound) bPoints 0
            else if sd = S then getValueAt (y bound + height bound) bPoints 1
            else getValueAt (x bound) bPoints 0)
       (\<lambda>p. Inr (graceFilter bound p))"

text \<open>
  The inner loop \<^verbatim>\<open>for (pos = cross.section; pos != end + direction; pos += direction)\<close>,
  with \<^verbatim>\<open>direction\<close> 1 for an incoming crossing point and -1 otherwise. It returns the
  new anchor point when it breaks, and \<open>None\<close> when it runs to its end. A position outside
  \<^verbatim>\<open>pointBounds\<close> reads \<^verbatim>\<open>undefined\<close>, of which the overlap test reads a field, and a
  position outside \<^verbatim>\<open>bezierPoints\<close> has \<^verbatim>\<open>getValueAt\<close> map over \<^verbatim>\<open>undefined\<close>: both throw.
\<close>

function searchAnchor ::
  "bounds list \<Rightarrow> point list list \<Rightarrow> bounds \<Rightarrow> Sides \<Rightarrow> bool \<Rightarrow> int \<Rightarrow> int
     \<Rightarrow> error + point option" where
  "searchAnchor pointBnds bezierPts bound sd inc end' pos =
     (if pos = end' + (if inc then 1 else - 1) then Inr None
      else if pos < 0 \<or> pos \<ge> int (length pointBnds) then Inl TypeError
      else if isCrossingBounds (pointBnds ! nat pos) bound then
        (if nat pos \<ge> length bezierPts then Inl TypeError
         else
           (case anchorCandidates bound sd (bezierPts ! nat pos) of
              Inl e \<Rightarrow> Inl e
            | Inr p \<Rightarrow>
                if length p > 0 then Inr (Some (point (p ! 0)))
                else searchAnchor pointBnds bezierPts bound sd inc end' (pos + (if inc then 1 else - 1))))
      else searchAnchor pointBnds bezierPts bound sd inc end' (pos + (if inc then 1 else - 1)))"
  by pat_completeness auto
termination
  by (relation "measure (\<lambda>(pointBnds, bezierPts, bound, sd, inc, end', pos).
        if inc then nat (int (length pointBnds) - pos) else nat (pos + 1))") auto

declare searchAnchor.simps [simp del]

text \<open>
  The body of the loop over the crossing points of one crossing, at the index \<open>a\<close>, in
  its parts: the rectangle \<^verbatim>\<open>bound\<close>, the position \<^verbatim>\<open>end\<close>, the search, and the
  assignment to \<^verbatim>\<open>crossingpoints[a]\<close> when the search has found a point.
\<close>

definition searchBound ::
  "ProxyView \<Rightarrow> 'a Canvas_scheme \<Rightarrow> real \<Rightarrow> CrossingPoint \<Rightarrow> bounds" where
  "searchBound pv canvasCRF offsetMultiplier cross =
     (let sz = transformWidthHeight pv (nodeBounds cross) canvasCRF;
          offsetx = proxyWidth sz * offsetMultiplier;
          offsety = proxyHeight sz * offsetMultiplier
      in shrunkBound (side cross) offsetx offsety canvasCRF)"

definition searchEnd :: "Crossing \<Rightarrow> nat \<Rightarrow> int" where
  "searchEnd crossing a =
     (let crossingpoints = crossingPoints crossing
      in if incoming (crossingpoints ! a)
         then (if a + 1 \<ge> length crossingpoints
               then int (length (pointBounds crossing)) - 1
               else int (section (crossingpoints ! (a + 1))))
         else (if int a - 1 < 0 then 0
               else int (section (crossingpoints ! (a - 1)))))"

definition anchorSearch ::
  "ProxyView \<Rightarrow> 'a Canvas_scheme \<Rightarrow> real \<Rightarrow> Crossing \<Rightarrow> nat \<Rightarrow> error + point option" where
  "anchorSearch pv canvasCRF offsetMultiplier crossing a =
     (let cross = crossingPoints crossing ! a
      in searchAnchor (pointBounds crossing) (bezierPoints crossing)
           (searchBound pv canvasCRF offsetMultiplier cross) (side cross) (incoming cross)
           (searchEnd crossing a) (int (section cross)))"

definition placeCrossingPoint ::
  "ProxyView \<Rightarrow> 'a Canvas_scheme \<Rightarrow> Anchors \<Rightarrow> real \<Rightarrow> nat \<Rightarrow> Crossing \<Rightarrow> error + Crossing" where
  "placeCrossingPoint pv canvasCRF anc offsetMultiplier a crossing =
     bindE (anchorSearch pv canvasCRF offsetMultiplier crossing a)
       (\<lambda>found. case found of
            None \<Rightarrow> Inr crossing
          | Some p \<Rightarrow>
              Inr (crossing\<lparr>crossingPoints :=
                     (crossingPoints crossing)
                       [a := (crossingPoints crossing ! a)\<lparr>proxyPoint := p, anchor := anc\<rparr>]\<rparr>))"

text \<open>
  The source sets its local \<^verbatim>\<open>anchor\<close> to \<^verbatim>\<open>Anchors.towardsMiddle\<close> and derives the
  multiplier from it; the function is written for any value of that local first.
\<close>

definition offsetMultiplierOf :: "Anchors \<Rightarrow> real" where
  "offsetMultiplierOf anc = (if anc = towardsMiddle then 1 else if anc = center then 0.5 else 0)"

definition updateProxyPlacementPointsWith ::
  "Anchors \<Rightarrow> ProxyView \<Rightarrow> Crossing list \<Rightarrow> 'a Canvas_scheme \<Rightarrow> error + Crossing list" where
  "updateProxyPlacementPointsWith anc pv crossings canvasCRF =
     (let offsetMultiplier = offsetMultiplierOf anc
      in mapE (\<lambda>crossing.
                 foldE (placeCrossingPoint pv canvasCRF anc offsetMultiplier)
                   [0 ..< length (crossingPoints crossing)] crossing)
           crossings)"

definition updateProxyPlacementPoints ::
  "ProxyView \<Rightarrow> Crossing list \<Rightarrow> 'a Canvas_scheme \<Rightarrow> error + Crossing list" where
  "updateProxyPlacementPoints = updateProxyPlacementPointsWith towardsMiddle"

text \<open>
  \<^verbatim>\<open>getTreeDepths\<close>: the rows of the tree, the root first. The next row is made of the
  children that are nodes.
\<close>

fun nodeChildren :: "SKChild list \<Rightarrow> SKTree list" where
  "nodeChildren [] = []"
| "nodeChildren (Node n cs # rest) = (n, cs) # nodeChildren rest"
| "nodeChildren (Edge e # rest) = nodeChildren rest"
| "nodeChildren (Other # rest) = nodeChildren rest"

definition nextRow :: "SKTree list \<Rightarrow> SKTree list" where
  "nextRow currentRow = concat (map (\<lambda>nd. nodeChildren (snd nd)) currentRow)"

text \<open>The measure under which the loop of \<^verbatim>\<open>getTreeDepths\<close> ends: the nodes still to visit.\<close>

definition rowSize :: "SKTree list \<Rightarrow> nat" where
  "rowSize row = sum_list (map (\<lambda>nd. 1 + size_list size (snd nd)) row)"

function treeRows :: "SKTree list list \<Rightarrow> SKTree list \<Rightarrow> SKTree list list" where
  "treeRows res currentRow =
     (if length currentRow > 0 then treeRows (res @ [currentRow]) (nextRow currentRow) else res)"
  by pat_completeness auto
termination
proof (relation "measure (\<lambda>(res, currentRow). rowSize currentRow)")
  show "wf (measure (\<lambda>(res, currentRow). rowSize currentRow))" by simp
next
  fix res :: "SKTree list list" and currentRow :: "SKTree list"
  assume nonempty: "0 < length currentRow"
  have children: "rowSize (nodeChildren cs) \<le> size_list size cs" for cs
    by (induction cs rule: nodeChildren.induct) (simp_all add: rowSize_def)
  have less: "row \<noteq> [] \<Longrightarrow> rowSize (nextRow row) < rowSize row" for row
  proof (induction row)
    case Nil
    then show ?case by simp
  next
    case (Cons nd row)
    have "rowSize (nextRow row) \<le> rowSize row"
      using Cons.IH by (cases "row = []") (auto simp: nextRow_def rowSize_def)
    moreover have "nextRow (nd # row) = nodeChildren (snd nd) @ nextRow row"
      by (simp add: nextRow_def)
    ultimately show ?case
      using children [of "snd nd"] by (simp add: rowSize_def)
  qed
  show "((res @ [currentRow], nextRow currentRow), (res, currentRow))
          \<in> measure (\<lambda>(res, currentRow). rowSize currentRow)"
    using nonempty less [of currentRow] by simp
qed

declare treeRows.simps [simp del]

definition getTreeDepths :: "SKTree \<Rightarrow> SKTree list list" where
  "getTreeDepths currRoot = treeRows [] [currRoot]"

text \<open>\<^verbatim>\<open>getDepth\<close>\<close>

fun getDepth :: "SKNode \<Rightarrow> SKNode \<Rightarrow> nat" where
  "getDepth (SKNode r isn b ax ay pr dat None) rt = 0"
| "getDepth (SKNode r isn b ax ay pr dat (Some par)) rt =
     (if \<not> sameObject (SKNode r isn b ax ay pr dat (Some par)) rt \<and> isSKNode par
      then 1 + getDepth par rt else 0)"

text \<open>
  \<^verbatim>\<open>filterOverlappingWithNodes\<close>. \<open>nodeBox\<close> is the rectangle \<open>b\<close> that is made of a node
  of the tree, \<open>markerBox\<close> the rectangle \<^verbatim>\<open>cpBounds\<close> of a crossing point, and
  \<open>foundOverlap\<close> the two nested loops over the rows from \<open>depth\<close> on, which end at the
  first overlap. \<open>filterPoints\<close> is the loop over the crossing points of one crossing; the
  variable \<^verbatim>\<open>depth\<close> is declared outside of it and set by \<^verbatim>\<open>depth ??= ...\<close>, so it is
  the state of the loop.
\<close>

definition nodeBox :: "SKTree \<Rightarrow> bounds" where
  "nodeBox nd = \<lparr>x = absoluteX (fst nd), y = absoluteY (fst nd),
                 width = width (nbounds (fst nd)), height = height (nbounds (fst nd))\<rparr>"

definition markerBox :: "ProxyView \<Rightarrow> 'a Canvas_scheme \<Rightarrow> CrossingPoint \<Rightarrow> bounds" where
  "markerBox pv canvasCRF cp =
     (let sz = transformWidthHeight pv (nodeBounds cp) canvasCRF
      in \<lparr>x = x (proxyPoint cp), y = y (proxyPoint cp),
          width = proxyWidth sz, height = proxyHeight sz\<rparr>)"

definition foundOverlap :: "ProxyView \<Rightarrow> 'a Canvas_scheme \<Rightarrow> SKTree list list \<Rightarrow> nat \<Rightarrow> CrossingPoint \<Rightarrow> bool" where
  "foundOverlap pv canvasCRF nodes depth cp =
     list_ex (\<lambda>row. list_ex (\<lambda>nd. isInBounds (markerBox pv canvasCRF cp) (nodeBox nd)) row)
       (drop depth nodes)"

fun filterPoints ::
  "ProxyView \<Rightarrow> 'a Canvas_scheme \<Rightarrow> SKNode \<Rightarrow> SKTree list list \<Rightarrow> nat option
     \<Rightarrow> CrossingPoint list \<Rightarrow> CrossingPoint list" where
  "filterPoints pv canvasCRF rt nodes depth [] = []"
| "filterPoints pv canvasCRF rt nodes depth (cp # cps) =
     (let depth' = (case depth of None \<Rightarrow> getDepth (node cp) rt | Some d \<Rightarrow> d)
      in (if \<not> foundOverlap pv canvasCRF nodes depth' cp then [cp] else [])
         @ filterPoints pv canvasCRF rt nodes (Some depth') cps)"

definition filterOverlappingWithNodes ::
  "ProxyView \<Rightarrow> Crossing list \<Rightarrow> SKTree \<Rightarrow> 'a Canvas_scheme \<Rightarrow> Crossing list" where
  "filterOverlappingWithNodes pv crossings rt canvasCRF =
     (let nodes = getTreeDepths rt
      in concat (map (\<lambda>crossing.
           let e = edge crossing;
               depth = (if isSKNode (target e) \<and> isSKNode (source e)
                        then Some (max (getDepth (source e) (fst rt)) (getDepth (target e) (fst rt)))
                        else None);
               filtered = filterPoints pv canvasCRF (fst rt) nodes depth (crossingPoints crossing)
           in if length filtered > 0 then [crossing\<lparr>crossingPoints := filtered\<rparr>] else [])
         crossings))"

text \<open>
  The depth from which the filter in fact starts for all the crossing points of a crossing:
  the deeper end of the edge when both ends are nodes, and else the depth of the node of
  the first crossing point.
\<close>

definition baselineDepth :: "SKNode \<Rightarrow> Crossing \<Rightarrow> nat" where
  "baselineDepth rt c =
     (if isSKNode (target (edge c)) \<and> isSKNode (source (edge c))
      then max (getDepth (source (edge c)) rt) (getDepth (target (edge c)) rt)
      else (case crossingPoints c of [] \<Rightarrow> 0 | cp # cps \<Rightarrow> getDepth (node cp) rt))"

text \<open>
  The shape of a crossing as \<^verbatim>\<open>getCrossings\<close> builds it: a list of control points of a
  segment (at least four: exactly four) for every bounding box, and the crossing points in
  the order of their segments, each on a segment that exists.
\<close>

definition wellFormedCrossing :: "Crossing \<Rightarrow> bool" where
  "wellFormedCrossing c =
     (length (bezierPoints c) = length (pointBounds c)
      \<and> list_all (\<lambda>bp. 4 \<le> length bp) (bezierPoints c)
      \<and> sorted (map section (crossingPoints c))
      \<and> list_all (\<lambda>cp. section cp < length (pointBounds c)) (crossingPoints c))"

text \<open>
  The segments that the search for the crossing point \<open>a\<close> may look at: from its own to
  \<^verbatim>\<open>end\<close>, upwards when it is incoming and downwards otherwise. A segment gives a new
  anchor when its box crosses \<^verbatim>\<open>bound\<close> and a point of it is left by the filter.
\<close>

definition inSearchRange :: "bool \<Rightarrow> int \<Rightarrow> int \<Rightarrow> int \<Rightarrow> bool" where
  "inSearchRange inc start end' q = (if inc then start \<le> q \<and> q \<le> end' else end' \<le> q \<and> q \<le> start)"

definition anchorFoundAt :: "bounds list \<Rightarrow> point list list \<Rightarrow> bounds \<Rightarrow> Sides \<Rightarrow> int \<Rightarrow> bool" where
  "anchorFoundAt pointBnds bezierPts bound sd q =
     (isCrossingBounds (pointBnds ! nat q) bound
      \<and> (case anchorCandidates bound sd (bezierPts ! nat q) of Inl e \<Rightarrow> False | Inr p \<Rightarrow> p \<noteq> []))"

text \<open>What the loop of \<^verbatim>\<open>updateProxyPlacementPoints\<close> never writes to.\<close>

definition sameFrame :: "Crossing \<Rightarrow> Crossing \<Rightarrow> bool" where
  "sameFrame c c' =
     (edge c' = edge c \<and> pointBounds c' = pointBounds c \<and> bezierPoints c' = bezierPoints c
      \<and> length (crossingPoints c') = length (crossingPoints c)
      \<and> (\<forall>k < length (crossingPoints c).
            side (crossingPoints c' ! k) = side (crossingPoints c ! k)
          \<and> incoming (crossingPoints c' ! k) = incoming (crossingPoints c ! k)
          \<and> section (crossingPoints c' ! k) = section (crossingPoints c ! k)
          \<and> nodeBounds (crossingPoints c' ! k) = nodeBounds (crossingPoints c ! k)
          \<and> node (crossingPoints c' ! k) = node (crossingPoints c ! k)
          \<and> point (crossingPoints c' ! k) = point (crossingPoints c ! k)
          \<and> t (crossingPoints c' ! k) = t (crossingPoints c ! k)))"

text \<open>All the crossing points that a run of \<^verbatim>\<open>getCrossings\<close> has found.\<close>

definition crossingPointsOf :: "error + Crossing list \<times> string list \<Rightarrow> CrossingPoint list" where
  "crossingPointsOf r = (case r of Inl e \<Rightarrow> [] | Inr (cs, lg) \<Rightarrow> concat (map crossingPoints cs))"

section \<open>Concrete inputs\<close>

text \<open>
  The options at their defaults (\<^verbatim>\<open>proxy-view-options.ts\<close>: a size of 8 percent, the scale
  capped to one, the renderings of the synthesis used), a node, and the edge and the viewport
  of the end-to-end scenario of the spec: one cubic segment from \<open>(0, 0)\<close> to \<open>(100, 100)\<close>,
  whose bounds are the bounding box of its route, and a viewport of 60 by 60.
\<close>

definition defaultView :: ProxyView where
  "defaultView = \<lparr>sizePercentage = 8 / 100, originalNodeScale = False, capScaleToOne = True,
                    useSynthesisProxyRendering = True\<rparr>"

definition rootNode :: SKNode where
  "rootNode = SKNode (Some 0) True \<lparr>x = 0, y = 0, width = 200, height = 200\<rparr> 0 0 None 0 None"

definition scenarioRoute :: "point list" where
  "scenarioRoute = [\<lparr>x = 0, y = 0\<rparr>, \<lparr>x = 0, y = 50\<rparr>, \<lparr>x = 50, y = 100\<rparr>, \<lparr>x = 100, y = 100\<rparr>]"

definition scenarioEdge :: SKEdge where
  "scenarioEdge = \<lparr>source = rootNode, target = rootNode, routingPoints = scenarioRoute,
                    ebounds = \<lparr>x = 0, y = 0, width = 100, height = 100\<rparr>,
                    canvasBounds = \<lparr>x = 0, y = 0, width = 100, height = 100\<rparr>\<rparr>"

definition scenarioCanvas :: Canvas where
  "scenarioCanvas = \<lparr>x = 0, y = 0, width = 60, height = 60, zoom = 1\<rparr>"

text \<open>
  A crossing point on the north side of the viewport with a marker for a node of 20 by 10,
  and a crossing that holds it.
\<close>

definition sampleCrossingPoint :: CrossingPoint where
  "sampleCrossingPoint =
     \<lparr>point = \<lparr>x = 30, y = 0\<rparr>, t = 1 / 2, side = N, incoming = False, section = 0,
      proxyPoint = \<lparr>x = 30, y = 0\<rparr>, node = rootNode,
      nodeBounds = \<lparr>x = 0, y = 0, width = 20, height = 10\<rparr>, anchor = towardsMiddle\<rparr>"

definition sampleCrossing :: Crossing where
  "sampleCrossing =
     \<lparr>edge = scenarioEdge, pointBounds = [\<lparr>x = 0, y = 0, width = 100, height = 100\<rparr>],
      bezierPoints = [scenarioRoute], crossingPoints = [sampleCrossingPoint]\<rparr>"

text \<open>
  A tree of a root with two children, the nodes \<open>nodeA\<close> and \<open>nodeT\<close>, and an edge from a
  port of \<open>nodeA\<close> to \<open>nodeT\<close> with a crossing of two crossing points: one incoming, which
  stands for the port, and one outgoing, which stands for \<open>nodeT\<close> and whose marker lies
  over \<open>nodeA\<close>.
\<close>

definition nodeA :: SKNode where
  "nodeA = SKNode (Some 1) True \<lparr>x = 10, y = 10, width = 20, height = 20\<rparr> 10 10 None 0 (Some rootNode)"

definition nodeT :: SKNode where
  "nodeT = SKNode (Some 2) True \<lparr>x = 150, y = 150, width = 20, height = 20\<rparr> 150 150 None 0 (Some rootNode)"

definition portP :: SKNode where
  "portP = SKNode (Some 3) False \<lparr>x = 0, y = 0, width = 5, height = 5\<rparr> 10 10 None 0 (Some nodeA)"

definition portTree :: SKTree where
  "portTree = (rootNode, [Node nodeA [], Node nodeT []])"

definition portEdge :: SKEdge where
  "portEdge = \<lparr>source = portP, target = nodeT, routingPoints = scenarioRoute,
                ebounds = \<lparr>x = 0, y = 0, width = 100, height = 100\<rparr>,
                canvasBounds = \<lparr>x = 0, y = 0, width = 100, height = 100\<rparr>\<rparr>"

definition incomingPoint :: CrossingPoint where
  "incomingPoint =
     \<lparr>point = \<lparr>x = 0, y = 40\<rparr>, t = 1 / 4, side = W, incoming = True, section = 0,
      proxyPoint = \<lparr>x = 0, y = 40\<rparr>, node = objectCreate portP,
      nodeBounds = \<lparr>x = 0, y = 0, width = 5, height = 5\<rparr>, anchor = topLeft\<rparr>"

definition outgoingPoint :: CrossingPoint where
  "outgoingPoint =
     \<lparr>point = \<lparr>x = 12, y = 60\<rparr>, t = 3 / 4, side = S, incoming = False, section = 0,
      proxyPoint = \<lparr>x = 12, y = 12\<rparr>, node = objectCreate nodeT,
      nodeBounds = \<lparr>x = 150, y = 150, width = 20, height = 20\<rparr>, anchor = topLeft\<rparr>"

definition portCrossing :: Crossing where
  "portCrossing =
     \<lparr>edge = portEdge, pointBounds = [\<lparr>x = 0, y = 0, width = 100, height = 100\<rparr>],
      bezierPoints = [scenarioRoute], crossingPoints = [incomingPoint, outgoingPoint]\<rparr>"


text \<open>An edge with a route of five points.\<close>

definition fivePointEdge :: SKEdge where
  "fivePointEdge = \<lparr>source = rootNode, target = rootNode,
                     routingPoints = [\<lparr>x = 0, y = 0\<rparr>, \<lparr>x = 20, y = 0\<rparr>, \<lparr>x = 40, y = 0\<rparr>,
                                      \<lparr>x = 60, y = 0\<rparr>, \<lparr>x = 80, y = 0\<rparr>],
                     ebounds = \<lparr>x = 0, y = 0, width = 80, height = 0\<rparr>,
                     canvasBounds = \<lparr>x = 0, y = 0, width = 80, height = 0\<rparr>\<rparr>"

text \<open>The two containment tests the claims speak of, as predicates of their own.\<close>

definition containsPoint :: "'a bounds_scheme \<Rightarrow> point \<Rightarrow> bool" where
  "containsPoint b p =
     (x b \<le> x p \<and> x p \<le> x b + width b \<and> y b \<le> y p \<and> y p \<le> y b + height b)"

definition containsBounds :: "'a bounds_scheme \<Rightarrow> 'b bounds_scheme \<Rightarrow> bool" where
  "containsBounds a b =
     (x a \<le> x b \<and> x b + width b \<le> x a + width a \<and>
      y a \<le> y b \<and> y b + height b \<le> y a + height a)"

section \<open>Properties\<close>

lemma fold_min_Min: "fold min zs (z::real) = Min (insert z (set zs))"
proof (induction zs arbitrary: z)
  case Nil
  show ?case by simp
next
  case (Cons a zs)
  have "Min (insert (min a z) (set zs)) = Min (insert z (insert a (set zs)))"
    by (cases "set zs = {}") (auto simp: min.commute min.left_commute min.assoc)
  with Cons show ?case by simp
qed

lemma fold_max_Max: "fold max zs (z::real) = Max (insert z (set zs))"
proof (induction zs arbitrary: z)
  case Nil
  show ?case by simp
next
  case (Cons a zs)
  have "Max (insert (max a z) (set zs)) = Max (insert z (insert a (set zs)))"
    by (cases "set zs = {}") (auto simp: max.commute max.left_commute max.assoc)
  with Cons show ?case by simp
qed

subsection \<open>The bounding box of a list of points\<close>

lemma getBoundsFromPoints_Cons:
  "getBoundsFromPoints (p # ps) =
     Some \<lparr>x = Min (x ` set (p # ps)), y = Min (y ` set (p # ps)),
           width = Max (x ` set (p # ps)) - Min (x ` set (p # ps)),
           height = Max (y ` set (p # ps)) - Min (y ` set (p # ps))\<rparr>"
  by (simp add: getBoundsFromPoints_def Let_def fold_min_Min fold_max_Max)

text \<open>
  C10: on a non-empty list \<^verbatim>\<open>getBoundsFromPoints\<close> returns the least rectangle around
  the points: its corner is the least x and the least y, its extent the greatest minus the
  least (so it is not negative), every point of the list lies in it, and every rectangle
  that holds all the points holds it.
\<close>

theorem getBoundsFromPoints_minimal_box:
  assumes "points \<noteq> []"
  shows "\<exists>b. getBoundsFromPoints points = Some b
           \<and> x b = Min (x ` set points) \<and> y b = Min (y ` set points)
           \<and> width b = Max (x ` set points) - Min (x ` set points)
           \<and> height b = Max (y ` set points) - Min (y ` set points)
           \<and> 0 \<le> width b \<and> 0 \<le> height b
           \<and> (\<forall>p \<in> set points. containsPoint b p)
           \<and> (\<forall>r :: bounds. (\<forall>p \<in> set points. containsPoint r p) \<longrightarrow> containsBounds r b)"
proof -
  obtain q qs where pts: "points = q # qs"
    using assms by (cases points) auto
  let ?X = "x ` set points" and ?Y = "y ` set points"
  let ?b = "\<lparr>x = Min ?X, y = Min ?Y, width = Max ?X - Min ?X, height = Max ?Y - Min ?Y\<rparr>"
  have fin: "finite ?X" "finite ?Y" and ne: "?X \<noteq> {}" "?Y \<noteq> {}"
    using assms by auto
  have val: "getBoundsFromPoints points = Some ?b"
    unfolding pts by (rule getBoundsFromPoints_Cons)
  have mm: "Min ?X \<le> Max ?X" "Min ?Y \<le> Max ?Y"
    using fin ne by (simp_all add: Min_le_iff)
  have inside: "containsPoint ?b p" if "p \<in> set points" for p
  proof -
    have "x p \<in> ?X" "y p \<in> ?Y" using that by auto
    then have "Min ?X \<le> x p" "x p \<le> Max ?X" "Min ?Y \<le> y p" "y p \<le> Max ?Y"
      using fin by (auto intro: Min_le Max_ge)
    then show ?thesis by (simp add: containsPoint_def)
  qed
  have least: "containsBounds r ?b" if r: "\<forall>p \<in> set points. containsPoint r p" for r :: bounds
  proof -
    have "Min ?X \<in> ?X" using fin ne by (intro Min_in)
    then obtain pa where pa: "pa \<in> set points" "x pa = Min ?X" by auto
    have "Max ?X \<in> ?X" using fin ne by (intro Max_in)
    then obtain pb where pb: "pb \<in> set points" "x pb = Max ?X" by auto
    have "Min ?Y \<in> ?Y" using fin ne by (intro Min_in)
    then obtain pc where pc: "pc \<in> set points" "y pc = Min ?Y" by auto
    have "Max ?Y \<in> ?Y" using fin ne by (intro Max_in)
    then obtain pd where pd: "pd \<in> set points" "y pd = Max ?Y" by auto
    have "containsPoint r pa" "containsPoint r pb" "containsPoint r pc" "containsPoint r pd"
      using r pa(1) pb(1) pc(1) pd(1) by blast+
    then show ?thesis
      using pa(2) pb(2) pc(2) pd(2) by (simp add: containsPoint_def containsBounds_def)
  qed
  show ?thesis
    using val mm inside least by (intro exI [of _ ?b]) simp
qed

theorem getBoundsFromPoints_minimal_box_witness:
  "(\<exists>b. getBoundsFromPoints [\<lparr>x = 0, y = 50\<rparr>, \<lparr>x = 50, y = 100\<rparr>] = Some b
           \<and> x b = 0 \<and> y b = 50 \<and> width b = 50 \<and> height b = 50)"
  using getBoundsFromPoints_minimal_box [of "[\<lparr>x = 0, y = 50\<rparr>, \<lparr>x = 50, y = 100\<rparr>]"]
  by auto

subsection \<open>The crossing predicate\<close>

text \<open>
  C9: \<^verbatim>\<open>isCrossingBounds\<close> gives the same answer when its two rectangles are swapped,
  and it holds exactly when the two overlap and neither holds the other.
\<close>

theorem isCrossingBounds_symmetric:
  "isCrossingBounds a b = isCrossingBounds b a
   \<and> isCrossingBounds a b = (isInBounds a b \<and> \<not> containsBounds a b \<and> \<not> containsBounds b a)"
  unfolding isCrossingBounds_def isInBounds_def containsBounds_def by auto

theorem isCrossingBounds_symmetric_witness:
  "isCrossingBounds \<lparr>x = 0, y = 0, width = 10, height = 10\<rparr> \<lparr>x = 5, y = 5, width = 10, height = 10\<rparr>
   \<and> isCrossingBounds \<lparr>x = 5, y = 5, width = 10, height = 10\<rparr> \<lparr>x = 0, y = 0, width = 10, height = 10\<rparr>"
  using isCrossingBounds_symmetric
    [of "\<lparr>x = 0, y = 0, width = 10, height = 10\<rparr>" "\<lparr>x = 5, y = 5, width = 10, height = 10\<rparr>"]
  by (auto simp: isInBounds_def containsBounds_def)

subsection \<open>The degenerate branches of the root solver\<close>

lemma length_align: "length (align points line) = length points"
  by (simp add: align_def Let_def)

lemma roots_coefficients:
  assumes "4 \<le> length points" and "coefficients points line = (d, a, b, c)"
  shows "roots points line =
           Inr (if d = 0 then degenerateRoots a b c else cubicRoots (a / d) (b / d) (c / d))"
proof -
  have "\<not> length (align points line) < 4"
    using assms(1) by (simp add: length_align)
  moreover have "d = fst (coefficients points line)" "a = fst (snd (coefficients points line))"
    "b = fst (snd (snd (coefficients points line)))" "c = snd (snd (snd (coefficients points line)))"
    by (simp_all add: assms(2))
  ultimately show ?thesis
    by (simp add: roots_def coefficients_def Let_def)
qed

text \<open>
  C6: with four control points and the coefficients \<open>d\<close>, \<open>a\<close>, \<open>b\<close>, \<open>c\<close> of the aligned
  curve, \<^verbatim>\<open>roots\<close> solves the quadratic when \<open>d = 0\<close>, the linear equation when
  \<open>a = 0\<close> too, and returns the empty list when \<open>b = 0\<close> too; it returns a list in every
  case and never throws.
\<close>

theorem roots_degeneracy_cascade:
  assumes "4 \<le> length points" and "coefficients points line = (d, a, b, c)"
  shows "(d = 0 \<and> a \<noteq> 0 \<longrightarrow>
            roots points line =
              Inr (if b * b - 4 * a * c < 0 then []
                   else filter reduce [(sqrt (b * b - 4 * a * c) - b) / (2 * a),
                                       (- b - sqrt (b * b - 4 * a * c)) / (2 * a)]))
       \<and> (d = 0 \<and> a = 0 \<and> b \<noteq> 0 \<longrightarrow> roots points line = Inr (filter reduce [- c / b]))
       \<and> (d = 0 \<and> a = 0 \<and> b = 0 \<longrightarrow> roots points line = Inr [])
       \<and> (\<exists>rs. roots points line = Inr rs)"
  unfolding roots_coefficients [OF assms]
  by (simp add: degenerateRoots_def Let_def)

theorem roots_degeneracy_cascade_witness:
  "4 \<le> length [\<lparr>x = 0, y = 0\<rparr>, \<lparr>x = 1, y = 1\<rparr>, \<lparr>x = 2, y = 2\<rparr>, \<lparr>x = 3, y = 3\<rparr>]
   \<and> coefficients [\<lparr>x = 0, y = 0\<rparr>, \<lparr>x = 1, y = 1\<rparr>, \<lparr>x = 2, y = 2\<rparr>, \<lparr>x = 3, y = 3\<rparr>]
        \<lparr>p1 = \<lparr>x = 0, y = 0\<rparr>, p2 = \<lparr>x = 1, y = 0\<rparr>\<rparr> = (0, 0, 3, 0)
   \<and> roots [\<lparr>x = 0, y = 0\<rparr>, \<lparr>x = 1, y = 1\<rparr>, \<lparr>x = 2, y = 2\<rparr>, \<lparr>x = 3, y = 3\<rparr>]
        \<lparr>p1 = \<lparr>x = 0, y = 0\<rparr>, p2 = \<lparr>x = 1, y = 0\<rparr>\<rparr> = Inr [0]"
proof -
  let ?ps = "[\<lparr>x = 0, y = 0\<rparr>, \<lparr>x = 1, y = 1\<rparr>, \<lparr>x = 2, y = 2\<rparr>, \<lparr>x = 3, y = 3\<rparr>]"
  let ?l = "\<lparr>p1 = \<lparr>x = 0, y = 0\<rparr>, p2 = \<lparr>x = 1, y = 0\<rparr>\<rparr>"
  have len: "4 \<le> length ?ps" by simp
  have co: "coefficients ?ps ?l = (0, 0, 3, 0)"
    by (simp add: coefficients_def align_def atan2_def Let_def)
  show ?thesis
    using len co roots_degeneracy_cascade [OF len co] by (simp add: reduce_def)
qed

subsection \<open>\<^verbatim>\<open>getCrossings\<close> returns for every list of edges\<close>

lemma bindE_Inr [simp]: "bindE (Inr v) f = f v"
  by (simp add: bindE_def)

lemma bindE_Inl [simp]: "bindE (Inl e) f = Inl e"
  by (simp add: bindE_def)

lemma mapE_total:
  assumes "\<And>v. v \<in> set vs \<Longrightarrow> \<exists>w. f v = Inr w"
  shows "\<exists>ws. mapE f vs = Inr ws"
  using assms
proof (induction vs)
  case Nil
  show ?case by simp
next
  case (Cons v vs)
  then obtain w ws where "f v = Inr w" "mapE f vs = Inr ws"
    by (meson list.set_intros)
  then show ?case by simp
qed

lemma computeCubic_total: "4 \<le> length p \<Longrightarrow> \<exists>pt. computeCubic u p = Inr pt"
  by (simp add: computeCubic_def Let_def)

lemma roots_total: "4 \<le> length points \<Longrightarrow> \<exists>rs. roots points line = Inr rs"
  by (simp add: roots_def Let_def length_align)

lemma getValueAt_total:
  assumes "4 \<le> length points"
  shows "\<exists>r. getValueAt v points ax = Inr r"
proof -
  obtain rs where rs: "roots (map (\<lambda>p. \<lparr>x = y p - v, y = x p - v\<rparr>) points)
      (if ax = 1 then \<lparr>p1 = \<lparr>x = 0, y = 0\<rparr>, p2 = \<lparr>x = 0, y = 1\<rparr>\<rparr>
       else \<lparr>p1 = \<lparr>x = 0, y = 0\<rparr>, p2 = \<lparr>x = 1, y = 0\<rparr>\<rparr>) = Inr rs"
    using roots_total [of "map (\<lambda>p. \<lparr>x = y p - v, y = x p - v\<rparr>) points"] assms by auto
  have "\<exists>w. bindE (computeCubic u points) (\<lambda>pt. Inr \<lparr>point = pt, t = u\<rparr>) = Inr w" for u
    using computeCubic_total [OF assms, of u] by auto
  then have "\<exists>ws. mapE (\<lambda>u. bindE (computeCubic u points) (\<lambda>pt. Inr \<lparr>point = pt, t = u\<rparr>)) rs = Inr ws"
    by (intro mapE_total) 
  then show ?thesis
    unfolding getValueAt_def Let_def rs by simp
qed

lemma bindE_total:
  assumes "\<exists>v. m = Inr v" and "\<And>v. \<exists>w. f v = Inr w"
  shows "\<exists>w. bindE m f = Inr w"
  using assms by auto

lemma boundaryPoints_total:
  assumes "4 \<le> length bPoints"
  shows "\<exists>r. boundaryPoints b1 b2 bPoints = Inr r"
proof -
  have g: "\<exists>r. (if c then bindE (getValueAt v bPoints ax) (\<lambda>a. Inr (map (withSide sd) a)) else Inr []) = Inr r"
    for v ax sd c
    using getValueAt_total [OF assms, of v ax] by auto
  show ?thesis
    unfolding boundaryPoints_def
    by (intro bindE_total g) simp
qed

lemma makeCrossingPoint_total:
  assumes "4 \<le> length bPoints"
  shows "\<exists>r. makeCrossingPoint pv c e i bPoints cp = Inr r"
proof -
  obtain pt where "computeCubic (if t cp > 0.5 then t cp - 0.03 else t cp + 0.03) bPoints = Inr pt"
    using computeCubic_total [OF assms] by blast
  then obtain inc where "isIncoming (t cp) c bPoints = Inr inc"
    by (simp add: isIncoming_def Let_def)
  then show ?thesis
    by (simp add: makeCrossingPoint_def Let_def split: prod.splits)
qed

lemma segmentCrossings_total:
  assumes "4 \<le> length bPoints"
  shows "\<exists>r. segmentCrossings pv c e i pb bPoints = Inr r"
proof -
  obtain cps where "boundaryPoints pb c bPoints = Inr cps"
    using boundaryPoints_total [OF assms] by blast
  moreover have "\<exists>r. mapE (makeCrossingPoint pv c e i bPoints) (graceFilter c cps) = Inr r"
    by (intro mapE_total makeCrossingPoint_total assms)
  ultimately show ?thesis
    by (auto simp: segmentCrossings_def)
qed

lemma length_slice:
  assumes "length vs mod 3 = 1" "i < length vs div 3"
  shows "length (slice vs (i * 3) (i * 3 + 4)) = 4"
proof -
  have "length vs = 3 * (length vs div 3) + 1"
    using assms(1) by presburger
  then have "i * 3 + 4 \<le> length vs"
    using assms(2) by linarith
  then show ?thesis by (simp add: slice_def)
qed

lemma edgeCrossings_shape:
  "\<exists>cr lg. \<forall>st. edgeCrossings pv c e st = Inr (fst st @ cr, snd st @ lg)"
proof (cases "length (routingPoints e) mod 3 = 1 \<and> length (routingPoints e) \<ge> 4")
  case False
  then show ?thesis
    by (intro exI [of _ "[]"] exI [of _ "[''proxy: Edge hat nicht 3n+1 n>0 Routing Punkte'']"])
       (auto simp: edgeCrossings_def Let_def)
next
  case True
  define rpoints where "rpoints = map (\<lambda>p. \<lparr>x = x p + (x (canvasBounds e) - x (ebounds e)),
      y = y p + (y (canvasBounds e) - y (ebounds e))\<rparr>) (routingPoints e)"
  define bezierPts where "bezierPts = map (\<lambda>i. slice rpoints (i * 3) (i * 3 + 4)) [0 ..< length rpoints div 3]"
  define pointBnds where "pointBnds = map (\<lambda>bpoints. the (getBoundsFromPoints bpoints)) bezierPts"
  have len: "length rpoints mod 3 = 1" "length rpoints \<ge> 4"
    using True by (simp_all add: rpoints_def)
  have "\<exists>w. segmentCrossings pv c e i (pointBnds ! i) (bezierPts ! i) = Inr w"
    if "i \<in> set [0 ..< length pointBnds]" for i
  proof -
    have "i < length rpoints div 3" using that by (simp add: pointBnds_def bezierPts_def)
    then have "length (bezierPts ! i) = 4"
      using length_slice [OF len(1)] by (simp add: bezierPts_def)
    then show ?thesis by (intro segmentCrossings_total) simp
  qed
  then obtain found where
    "mapE (\<lambda>i. segmentCrossings pv c e i (pointBnds ! i) (bezierPts ! i)) [0 ..< length pointBnds] = Inr found"
    using mapE_total [of "[0 ..< length pointBnds]" "\<lambda>i. segmentCrossings pv c e i (pointBnds ! i) (bezierPts ! i)"]
    by blast
  then have "\<forall>st. edgeCrossings pv c e st =
      Inr (fst st @ [\<lparr>edge = e, pointBounds = pointBnds, bezierPoints = bezierPts,
                                          crossingPoints = concat found\<rparr>], snd st @ [])"
    using len unfolding edgeCrossings_def Let_def
    by (simp flip: rpoints_def bezierPts_def pointBnds_def)
  then show ?thesis by blast
qed

lemma foldE_append: "foldE f (us @ vs) st = bindE (foldE f us st) (foldE f vs)"
  by (induction us arbitrary: st) (auto simp: bindE_def split: sum.splits)

lemma foldE_edgeCrossings_shape:
  "\<exists>cr lg. \<forall>st. foldE (edgeCrossings pv c) es st = Inr (fst st @ cr, snd st @ lg)"
proof (induction es)
  case Nil
  show ?case by (intro exI [of _ "[]"]) simp
next
  case (Cons e es)
  obtain cr lg where a: "\<And>st. edgeCrossings pv c e st = Inr (fst st @ cr, snd st @ lg)"
    using edgeCrossings_shape by blast
  obtain cr' lg' where b: "\<And>st. foldE (edgeCrossings pv c) es st = Inr (fst st @ cr', snd st @ lg')"
    using Cons by blast
  show ?case
    by (intro exI [of _ "cr @ cr'"] exI [of _ "lg @ lg'"]) (simp add: a b)
qed


lemma malformed_route:
  assumes "\<And>n. n \<ge> 1 \<Longrightarrow> length (routingPoints bad) \<noteq> 3 * n + 1"
  shows "\<not> (length (routingPoints bad) mod 3 = 1 \<and> length (routingPoints bad) \<ge> 4)"
proof
  assume a: "length (routingPoints bad) mod 3 = 1 \<and> length (routingPoints bad) \<ge> 4"
  then have "length (routingPoints bad) div 3 \<ge> 1"
    and "length (routingPoints bad) = 3 * (length (routingPoints bad) div 3) + 1"
    by presburger+
  with assms show False by blast
qed

lemma getCrossings_bezier_malformed:
  assumes "\<And>n. n \<ge> 1 \<Longrightarrow> length (routingPoints bad) \<noteq> 3 * n + 1"
  shows "getCrossings pv [bad] c = Inr ([], [''proxy: Edge hat nicht 3n+1 n>0 Routing Punkte''])
       \<and> (\<exists>cs lg1 lg2.
             getCrossings pv (es1 @ es2) c = Inr (cs, lg1 @ lg2)
           \<and> getCrossings pv (es1 @ bad # es2) c =
               Inr (cs, lg1 @ [''proxy: Edge hat nicht 3n+1 n>0 Routing Punkte''] @ lg2))"
proof -
  have bad: "edgeCrossings pv c bad st =
      Inr (fst st, snd st @ [''proxy: Edge hat nicht 3n+1 n>0 Routing Punkte''])" for st
    using malformed_route [OF assms] by (auto simp: edgeCrossings_def Let_def)
  obtain cr1 lg1 where a: "\<And>st. foldE (edgeCrossings pv c) es1 st = Inr (fst st @ cr1, snd st @ lg1)"
    using foldE_edgeCrossings_shape by blast
  obtain cr2 lg2 where b: "\<And>st. foldE (edgeCrossings pv c) es2 st = Inr (fst st @ cr2, snd st @ lg2)"
    using foldE_edgeCrossings_shape by blast
  have "getCrossings pv [bad] c = Inr ([], [''proxy: Edge hat nicht 3n+1 n>0 Routing Punkte''])"
    by (simp add: getCrossings_def bad)
  moreover have "getCrossings pv (es1 @ es2) c = Inr (cr1 @ cr2, lg1 @ lg2)"
    by (simp add: getCrossings_def foldE_append a b)
  moreover have "getCrossings pv (es1 @ bad # es2) c =
      Inr (cr1 @ cr2, lg1 @ [''proxy: Edge hat nicht 3n+1 n>0 Routing Punkte''] @ lg2)"
    by (simp add: getCrossings_def foldE_append a b bad)
  ultimately show ?thesis by blast
qed

lemma isIncoming_total:
  assumes "4 \<le> length bPoints"
  shows "\<exists>inc. isIncoming u bnds bPoints = Inr inc"
  unfolding isIncoming_def Let_def
  by (intro bindE_total computeCubic_total assms) simp

lemma boundaryPoints_tsx_total:
  assumes "4 \<le> length bPoints"
  shows "\<exists>r. boundaryPoints_tsx b1 b2 bPoints = Inr r"
proof -
  have g: "\<exists>r. (if cnd then getValueAt v bPoints ax else Inr []) = Inr r" for v ax cnd
    using getValueAt_total [OF assms, of v ax] by auto
  show ?thesis
    unfolding boundaryPoints_tsx_def Let_def
    by (intro bindE_total g) simp
qed

lemma segmentCrossings_tsx_total:
  assumes "4 \<le> length bPoints"
  shows "\<exists>r. segmentCrossings_tsx c e pb bPoints = Inr r"
proof -
  obtain found where f: "boundaryPoints_tsx pb c bPoints = Inr found"
    using boundaryPoints_tsx_total [OF assms] by blast
  have "\<exists>w. bindE (isIncoming (t cp) c bPoints) (\<lambda>inc. Inr \<lparr>point' = point cp, incoming' = inc\<rparr>) = Inr w"
    for cp :: curvePoint
    by (intro bindE_total isIncoming_total assms) simp
  then have "\<exists>r. mapE (\<lambda>cp. bindE (isIncoming (t cp) c bPoints)
                   (\<lambda>inc. Inr \<lparr>point' = point cp, incoming' = inc\<rparr>)) (graceFilter c found) = Inr r"
    by (intro mapE_total)
  then show ?thesis
    using f by (auto simp: segmentCrossings_tsx_def Let_def)
qed

lemma edgeCrossings_tsx_shape:
  "\<exists>cr lg. \<forall>st. edgeCrossings_tsx c e st = Inr (fst st @ cr, snd st @ lg)"
proof (cases "length (routingPoints e) mod 3 = 1 \<and> length (routingPoints e) \<ge> 4")
  case False
  then show ?thesis
    by (intro exI [of _ "[]"] exI [of _ "[''proxy: Edge hat nicht 3n+1 n>0 Routing Punkte'']"])
       (auto simp: edgeCrossings_tsx_def Let_def)
next
  case True
  define rpoints where "rpoints = map (\<lambda>p. \<lparr>x = x p + (x (canvasBounds e) - x (ebounds e)),
      y = y p + (y (canvasBounds e) - y (ebounds e))\<rparr>) (routingPoints e)"
  define bezierPts where "bezierPts = map (\<lambda>i. slice rpoints (i * 3) (i * 3 + 4)) [0 ..< length rpoints div 3]"
  define pointBnds where "pointBnds = map (\<lambda>bpoints. the (getBoundsFromPoints bpoints)) bezierPts"
  have len: "length rpoints mod 3 = 1" "length rpoints \<ge> 4"
    using True by (simp_all add: rpoints_def)
  have "\<exists>w. segmentCrossings_tsx c e (pointBnds ! i) (bezierPts ! i) = Inr w"
    if "i \<in> set [0 ..< length pointBnds]" for i
  proof -
    have "i < length rpoints div 3" using that by (simp add: pointBnds_def bezierPts_def)
    then have "length (bezierPts ! i) = 4"
      using length_slice [OF len(1)] by (simp add: bezierPts_def)
    then show ?thesis by (intro segmentCrossings_tsx_total) simp
  qed
  then obtain found where
    "mapE (\<lambda>i. segmentCrossings_tsx c e (pointBnds ! i) (bezierPts ! i)) [0 ..< length pointBnds] = Inr found"
    using mapE_total [of "[0 ..< length pointBnds]" "\<lambda>i. segmentCrossings_tsx c e (pointBnds ! i) (bezierPts ! i)"]
    by blast
  then have "\<forall>st. edgeCrossings_tsx c e st = Inr (fst st @ concat found, snd st @ [])"
    using len unfolding edgeCrossings_tsx_def Let_def
    by (simp flip: rpoints_def bezierPts_def pointBnds_def)
  then show ?thesis by blast
qed

lemma foldE_edgeCrossings_tsx_shape:
  "\<exists>cr lg. \<forall>st. foldE (edgeCrossings_tsx c) es st = Inr (fst st @ cr, snd st @ lg)"
proof (induction es)
  case Nil
  show ?case by (intro exI [of _ "[]"]) simp
next
  case (Cons e es)
  obtain cr lg where a: "\<And>st. edgeCrossings_tsx c e st = Inr (fst st @ cr, snd st @ lg)"
    using edgeCrossings_tsx_shape by blast
  obtain cr' lg' where b: "\<And>st. foldE (edgeCrossings_tsx c) es st = Inr (fst st @ cr', snd st @ lg')"
    using Cons by blast
  show ?case
    by (intro exI [of _ "cr @ cr'"] exI [of _ "lg @ lg'"]) (simp add: a b)
qed

lemma getCrossings_tsx_malformed:
  assumes "\<And>n. n \<ge> 1 \<Longrightarrow> length (routingPoints bad) \<noteq> 3 * n + 1"
  shows "getCrossings_tsx [bad] c = Inr ([], [''proxy: Edge hat nicht 3n+1 n>0 Routing Punkte''])
       \<and> (\<exists>cs lg1 lg2.
             getCrossings_tsx (es1 @ es2) c = Inr (cs, lg1 @ lg2)
           \<and> getCrossings_tsx (es1 @ bad # es2) c =
               Inr (cs, lg1 @ [''proxy: Edge hat nicht 3n+1 n>0 Routing Punkte''] @ lg2))"
proof -
  have bad: "edgeCrossings_tsx c bad st =
      Inr (fst st, snd st @ [''proxy: Edge hat nicht 3n+1 n>0 Routing Punkte''])" for st
    using malformed_route [OF assms] by (auto simp: edgeCrossings_tsx_def Let_def)
  obtain cr1 lg1 where a: "\<And>st. foldE (edgeCrossings_tsx c) es1 st = Inr (fst st @ cr1, snd st @ lg1)"
    using foldE_edgeCrossings_tsx_shape by blast
  obtain cr2 lg2 where b: "\<And>st. foldE (edgeCrossings_tsx c) es2 st = Inr (fst st @ cr2, snd st @ lg2)"
    using foldE_edgeCrossings_tsx_shape by blast
  have "getCrossings_tsx [bad] c = Inr ([], [''proxy: Edge hat nicht 3n+1 n>0 Routing Punkte''])"
    by (simp add: getCrossings_tsx_def bad)
  moreover have "getCrossings_tsx (es1 @ es2) c = Inr (cr1 @ cr2, lg1 @ lg2)"
    by (simp add: getCrossings_tsx_def foldE_append a b)
  moreover have "getCrossings_tsx (es1 @ bad # es2) c =
      Inr (cr1 @ cr2, lg1 @ [''proxy: Edge hat nicht 3n+1 n>0 Routing Punkte''] @ lg2)"
    by (simp add: getCrossings_tsx_def foldE_append a b bad)
  ultimately show ?thesis by blast
qed

text \<open>
  C3: an edge whose route does not have \<open>3n + 1\<close> points, \<open>n \<ge> 1\<close>, gives no crossing and
  one line on the console, and \<^verbatim>\<open>getCrossings\<close> does not throw; put anywhere into a list
  of edges, it leaves the crossings of the others as they are and adds its one line. This
  holds for \<^verbatim>\<open>getCrossings\<close> as \<^verbatim>\<open>proxy-view-bezier.ts\<close> has it and as \<^verbatim>\<open>proxy-view.tsx\<close>
  has it.
\<close>

theorem getCrossings_malformed_route:
  assumes "\<And>n. n \<ge> 1 \<Longrightarrow> length (routingPoints bad) \<noteq> 3 * n + 1"
  shows "(getCrossings pv [bad] c = Inr ([], [''proxy: Edge hat nicht 3n+1 n>0 Routing Punkte''])
          \<and> (\<exists>cs lg1 lg2.
                getCrossings pv (es1 @ es2) c = Inr (cs, lg1 @ lg2)
              \<and> getCrossings pv (es1 @ bad # es2) c =
                  Inr (cs, lg1 @ [''proxy: Edge hat nicht 3n+1 n>0 Routing Punkte''] @ lg2)))
       \<and> (getCrossings_tsx [bad] c = Inr ([], [''proxy: Edge hat nicht 3n+1 n>0 Routing Punkte''])
          \<and> (\<exists>cs lg1 lg2.
                getCrossings_tsx (es1 @ es2) c = Inr (cs, lg1 @ lg2)
              \<and> getCrossings_tsx (es1 @ bad # es2) c =
                  Inr (cs, lg1 @ [''proxy: Edge hat nicht 3n+1 n>0 Routing Punkte''] @ lg2)))"
proof (rule conjI)
  show "getCrossings pv [bad] c = Inr ([], [''proxy: Edge hat nicht 3n+1 n>0 Routing Punkte''])
          \<and> (\<exists>cs lg1 lg2.
                getCrossings pv (es1 @ es2) c = Inr (cs, lg1 @ lg2)
              \<and> getCrossings pv (es1 @ bad # es2) c =
                  Inr (cs, lg1 @ [''proxy: Edge hat nicht 3n+1 n>0 Routing Punkte''] @ lg2))"
    by (rule getCrossings_bezier_malformed) (rule assms)
  show "getCrossings_tsx [bad] c = Inr ([], [''proxy: Edge hat nicht 3n+1 n>0 Routing Punkte''])
          \<and> (\<exists>cs lg1 lg2.
                getCrossings_tsx (es1 @ es2) c = Inr (cs, lg1 @ lg2)
              \<and> getCrossings_tsx (es1 @ bad # es2) c =
                  Inr (cs, lg1 @ [''proxy: Edge hat nicht 3n+1 n>0 Routing Punkte''] @ lg2))"
    by (rule getCrossings_tsx_malformed) (rule assms)
qed

theorem getCrossings_malformed_route_witness:
  "getCrossings defaultView [fivePointEdge] scenarioCanvas
     = Inr ([], [''proxy: Edge hat nicht 3n+1 n>0 Routing Punkte''])
   \<and> getCrossings_tsx [fivePointEdge] scenarioCanvas
     = Inr ([], [''proxy: Edge hat nicht 3n+1 n>0 Routing Punkte''])"
proof -
  have h: "length (routingPoints fivePointEdge) \<noteq> 3 * n + 1" if "n \<ge> 1" for n
    using that by (simp add: fivePointEdge_def) presburger
  show ?thesis
    using getCrossings_malformed_route [of fivePointEdge defaultView scenarioCanvas, OF h] by blast
qed

subsection \<open>The end-to-end scenario\<close>

lemma scenario_box:
  "getBoundsFromPoints scenarioRoute = Some \<lparr>x = 0, y = 0, width = 100, height = 100\<rparr>"
  by (simp add: getBoundsFromPoints_def scenarioRoute_def)

lemma scenario_not_crossing:
  assumes "x c = 0" "y c = 0" "width c = 60" "height c = 60"
  shows "\<not> isCrossingBounds \<lparr>x = 0, y = 0, width = 100, height = 100\<rparr> c"
  using assms by (simp add: isCrossingBounds_def)

text \<open>
  C2, as the code has it: for an edge with the route \<open>(0, 0)\<close>, \<open>(0, 50)\<close>, \<open>(50, 100)\<close>,
  \<open>(100, 100)\<close> (and no offset between its bounds and its canvas bounds) and the viewport
  of 60 by 60 at the origin, \<^verbatim>\<open>getCrossings\<close> returns one \<^verbatim>\<open>Crossing\<close> for the edge with
  no crossing point in it: the bounding box \<open>(0, 0, 100, 100)\<close> of the segment contains the
  viewport, which \<^verbatim>\<open>isCrossingBounds\<close> excludes. For the same reason \<^verbatim>\<open>getPossibleEdges\<close>
  does not select an edge with these bounds.
\<close>

theorem scenario_no_crossing:
  assumes "routingPoints e = scenarioRoute"
    and "x (canvasBounds e) = x (ebounds e)" "y (canvasBounds e) = y (ebounds e)"
    and "x c = 0" "y c = 0" "width c = 60" "height c = 60"
  shows "getCrossings pv [e] c =
           Inr ([\<lparr>edge = e, pointBounds = [\<lparr>x = 0, y = 0, width = 100, height = 100\<rparr>],
                  bezierPoints = [scenarioRoute], crossingPoints = []\<rparr>], [])
       \<and> crossingPointsOf (getCrossings pv [e] c) = []
       \<and> (canvasBounds e = \<lparr>x = 0, y = 0, width = 100, height = 100\<rparr>
            \<longrightarrow> getPossibleEdges (n, [Edge e]) c = [])"
proof -
  have rp: "map (\<lambda>p. \<lparr>x = x p + (x (canvasBounds e) - x (ebounds e)),
                      y = y p + (y (canvasBounds e) - y (ebounds e))\<rparr>) (routingPoints e) = scenarioRoute"
    using assms(1-3) by (simp add: scenarioRoute_def)
  have len: "length scenarioRoute = 4" by (simp add: scenarioRoute_def)
  have sl: "slice scenarioRoute 0 4 = scenarioRoute" by (simp add: slice_def len)
  have nc: "\<not> isCrossingBounds \<lparr>x = 0, y = 0, width = 100, height = 100\<rparr> c"
    using assms(4-7) by (rule scenario_not_crossing)
  have ec: "edgeCrossings pv c e ([], []) =
      Inr ([\<lparr>edge = e, pointBounds = [\<lparr>x = 0, y = 0, width = 100, height = 100\<rparr>],
                  bezierPoints = [scenarioRoute], crossingPoints = []\<rparr>], [])"
    unfolding edgeCrossings_def Let_def rp
    by (simp add: len sl scenario_box segmentCrossings_def nc)
  have g: "getCrossings pv [e] c =
           Inr ([\<lparr>edge = e, pointBounds = [\<lparr>x = 0, y = 0, width = 100, height = 100\<rparr>],
                  bezierPoints = [scenarioRoute], crossingPoints = []\<rparr>], [])"
    by (simp add: getCrossings_def ec)
  moreover have "crossingPointsOf (getCrossings pv [e] c) = []"
    unfolding g by (simp add: crossingPointsOf_def)
  moreover have "getPossibleEdges (n, [Edge e]) c = []"
    if "canvasBounds e = \<lparr>x = 0, y = 0, width = 100, height = 100\<rparr>"
    using nc that by (simp add: getPossibleEdges_def)
  ultimately show ?thesis by blast
qed

theorem scenario_no_crossing_witness:
  "getCrossings defaultView [scenarioEdge] scenarioCanvas =
           Inr ([\<lparr>edge = scenarioEdge, pointBounds = [\<lparr>x = 0, y = 0, width = 100, height = 100\<rparr>],
                  bezierPoints = [scenarioRoute], crossingPoints = []\<rparr>], [])
   \<and> getPossibleEdges (rootNode, [Edge scenarioEdge]) scenarioCanvas = []"
  using scenario_no_crossing [of scenarioEdge scenarioCanvas defaultView rootNode]
  by (simp add: scenarioEdge_def scenarioCanvas_def)

text \<open>
  C2, as the spec states it, asks for exactly one crossing point; the pipeline finds none,
  with and without the selection of the edges.
\<close>

theorem scenario_one_crossing_counterexample:
  "length (crossingPointsOf (getCrossings defaultView
      (getPossibleEdges (rootNode, [Edge scenarioEdge]) scenarioCanvas) scenarioCanvas)) \<noteq> 1
   \<and> length (crossingPointsOf (getCrossings defaultView [scenarioEdge] scenarioCanvas)) \<noteq> 1"
proof -
  have nc: "\<not> isCrossingBounds \<lparr>x = 0, y = 0, width = 100, height = 100\<rparr> scenarioCanvas"
    by (simp add: isCrossingBounds_def scenarioCanvas_def)
  have sel: "getPossibleEdges (rootNode, [Edge scenarioEdge]) scenarioCanvas = []"
    using nc by (simp add: scenarioEdge_def getPossibleEdges_def)
  have len: "length scenarioRoute = 4" by (simp add: scenarioRoute_def)
  have sl: "slice scenarioRoute 0 4 = scenarioRoute" by (simp add: slice_def len)
  have rp: "map (\<lambda>p. \<lparr>x = x p + (x (canvasBounds scenarioEdge) - x (ebounds scenarioEdge)),
                      y = y p + (y (canvasBounds scenarioEdge) - y (ebounds scenarioEdge))\<rparr>)
               (routingPoints scenarioEdge) = scenarioRoute"
    by (simp add: scenarioEdge_def scenarioRoute_def)
  have ec: "edgeCrossings defaultView scenarioCanvas scenarioEdge ([], []) =
      Inr ([\<lparr>edge = scenarioEdge, pointBounds = [\<lparr>x = 0, y = 0, width = 100, height = 100\<rparr>],
                  bezierPoints = [scenarioRoute], crossingPoints = []\<rparr>], [])"
    unfolding edgeCrossings_def Let_def rp
    by (simp add: len sl scenario_box segmentCrossings_def nc)
  show ?thesis
    unfolding sel by (simp add: getCrossings_def ec crossingPointsOf_def)
qed

subsection \<open>The offset of the anchor\<close>

lemma sample_size:
  "transformWidthHeight defaultView (nodeBounds sampleCrossingPoint) scenarioCanvas
     = \<lparr>proxyWidth = 24 / 5, proxyHeight = 12 / 5, scale = 6 / 25\<rparr>"
  by (simp add: transformWidthHeight_def defaultView_def sampleCrossingPoint_def scenarioCanvas_def Let_def)

text \<open>
  C7: \<^verbatim>\<open>applyAnchors\<close> keeps the crossings and their crossing points in place; of every
  crossing point it moves the anchor point back by the entry of the table for its anchor
  and its side, taken for a marker of the size of the proxy, and sets the anchor to
  \<^verbatim>\<open>topLeft\<close>. The entry for \<^verbatim>\<open>towardsMiddle\<close> on the north side is half the width and
  the full height, the entry for \<^verbatim>\<open>center\<close> half the width and half the height on every
  side.
\<close>

theorem applyAnchors_subtracts_offset:
  "length (applyAnchors pv crossings canvas) = length crossings
   \<and> (\<forall>i < length crossings.
         length (crossingPoints (applyAnchors pv crossings canvas ! i))
           = length (crossingPoints (crossings ! i))
       \<and> (\<forall>j < length (crossingPoints (crossings ! i)).
            let cp = crossingPoints (crossings ! i) ! j;
                cp' = crossingPoints (applyAnchors pv crossings canvas ! i) ! j;
                sz = transformWidthHeight pv (nodeBounds cp) canvas;
                marker = \<lparr>x = 0, y = 0, width = proxyWidth sz, height = proxyHeight sz\<rparr>;
                offset = getAnchorOffsets marker (side cp) (anchor cp)
            in x (proxyPoint cp') = x (proxyPoint cp) - fst offset
             \<and> y (proxyPoint cp') = y (proxyPoint cp) - snd offset
             \<and> anchor cp' = topLeft
             \<and> cp' = cp\<lparr>proxyPoint := proxyPoint cp', anchor := topLeft\<rparr>
             \<and> (anchor cp = towardsMiddle \<and> side cp = N
                  \<longrightarrow> offset = (proxyWidth sz / 2, proxyHeight sz))
             \<and> (anchor cp = center \<longrightarrow> offset = (proxyWidth sz / 2, proxyHeight sz / 2))))"
  by (simp add: applyAnchors_def applyAnchor_def getAnchorOffsets_def Let_def split: prod.splits)

theorem applyAnchors_subtracts_offset_witness:
  "proxyPoint (crossingPoints (applyAnchors defaultView [sampleCrossing] scenarioCanvas ! 0) ! 0)
     = \<lparr>x = 30 - 12 / 5, y = 0 - 12 / 5\<rparr>
   \<and> anchor (crossingPoints (applyAnchors defaultView [sampleCrossing] scenarioCanvas ! 0) ! 0) = topLeft"
proof -
  have "\<forall>j < length (crossingPoints ([sampleCrossing] ! 0)).
            let cp = crossingPoints ([sampleCrossing] ! 0) ! j;
                cp' = crossingPoints (applyAnchors defaultView [sampleCrossing] scenarioCanvas ! 0) ! j;
                sz = transformWidthHeight defaultView (nodeBounds cp) scenarioCanvas;
                marker = \<lparr>x = 0, y = 0, width = proxyWidth sz, height = proxyHeight sz\<rparr>;
                offset = getAnchorOffsets marker (side cp) (anchor cp)
            in x (proxyPoint cp') = x (proxyPoint cp) - fst offset
             \<and> y (proxyPoint cp') = y (proxyPoint cp) - snd offset
             \<and> anchor cp' = topLeft
             \<and> cp' = cp\<lparr>proxyPoint := proxyPoint cp', anchor := topLeft\<rparr>
             \<and> (anchor cp = towardsMiddle \<and> side cp = N
                  \<longrightarrow> offset = (proxyWidth sz / 2, proxyHeight sz))
             \<and> (anchor cp = center \<longrightarrow> offset = (proxyWidth sz / 2, proxyHeight sz / 2))"
    using applyAnchors_subtracts_offset [of defaultView "[sampleCrossing]" scenarioCanvas] by simp
  then have "let cp = sampleCrossingPoint;
                cp' = crossingPoints (applyAnchors defaultView [sampleCrossing] scenarioCanvas ! 0) ! 0;
                sz = transformWidthHeight defaultView (nodeBounds cp) scenarioCanvas;
                marker = \<lparr>x = 0, y = 0, width = proxyWidth sz, height = proxyHeight sz\<rparr>;
                offset = getAnchorOffsets marker (side cp) (anchor cp)
            in x (proxyPoint cp') = x (proxyPoint cp) - fst offset
             \<and> y (proxyPoint cp') = y (proxyPoint cp) - snd offset
             \<and> anchor cp' = topLeft
             \<and> (anchor cp = towardsMiddle \<and> side cp = N
                  \<longrightarrow> offset = (proxyWidth sz / 2, proxyHeight sz))"
    by (simp add: sampleCrossing_def Let_def)
  then show ?thesis
    unfolding Let_def sample_size
    by (simp add: sampleCrossingPoint_def point.equality)
qed

subsection \<open>The rectangle of the anchor search\<close>

text \<open>
  C5, as the code has it: the rectangle in which \<^verbatim>\<open>updateProxyPlacementPoints\<close> looks for
  a better anchor is the viewport made smaller on the axis of the crossing, on both of its
  sides, by the multiplier of the policy (1 for \<^verbatim>\<open>towardsMiddle\<close>, 0.5 for \<^verbatim>\<open>center\<close>)
  times the extent of the marker on that axis; the two sides of the other axis stay.
\<close>

theorem searchBound_inset:
  fixes canvasCRF :: "'a Canvas_scheme"
  assumes "anc = towardsMiddle \<or> anc = center"
  shows "let sz = transformWidthHeight pv (nodeBounds cp) canvasCRF;
             m = offsetMultiplierOf anc;
             b = searchBound pv canvasCRF m cp
         in (anc = towardsMiddle \<longrightarrow> m = 1) \<and> (anc = center \<longrightarrow> m = 1 / 2)
          \<and> (side cp = N \<or> side cp = S \<longrightarrow>
                y b = y canvasCRF + m * proxyHeight sz
              \<and> y b + height b = y canvasCRF + height canvasCRF - m * proxyHeight sz
              \<and> x b = x canvasCRF \<and> x b + width b = x canvasCRF + width canvasCRF)
          \<and> (side cp = E \<or> side cp = W \<longrightarrow>
                x b = x canvasCRF + m * proxyWidth sz
              \<and> x b + width b = x canvasCRF + width canvasCRF - m * proxyWidth sz
              \<and> y b = y canvasCRF \<and> y b + height b = y canvasCRF + height canvasCRF)"
  using assms
  by (cases "side cp") (auto simp: searchBound_def shrunkBound_def offsetMultiplierOf_def Let_def)

theorem searchBound_inset_witness:
  "searchBound defaultView scenarioCanvas (offsetMultiplierOf towardsMiddle) sampleCrossingPoint
     = \<lparr>x = 0, y = 12 / 5, width = 60, height = 60 - 24 / 5\<rparr>"
  using searchBound_inset [of towardsMiddle defaultView sampleCrossingPoint scenarioCanvas]
  by (simp add: searchBound_def shrunkBound_def Let_def sample_size offsetMultiplierOf_def)
     (simp add: sampleCrossingPoint_def scenarioCanvas_def)

text \<open>
  C5, as the spec states it, leaves the three other sides of the viewport where they are;
  the south side of the rectangle for a crossing on the north side has moved.
\<close>

theorem searchBound_other_sides_counterexample:
  "side sampleCrossingPoint = N
   \<and> y (searchBound defaultView scenarioCanvas (offsetMultiplierOf towardsMiddle) sampleCrossingPoint)
       + height (searchBound defaultView scenarioCanvas (offsetMultiplierOf towardsMiddle) sampleCrossingPoint)
     \<noteq> y scenarioCanvas + height scenarioCanvas"
  by (simp add: searchBound_def shrunkBound_def Let_def sample_size offsetMultiplierOf_def)
     (simp add: sampleCrossingPoint_def scenarioCanvas_def)

subsection \<open>The search for a better anchor\<close>

lemma anchorCandidates_total:
  assumes "4 \<le> length bPoints"
  shows "\<exists>p. anchorCandidates bound sd bPoints = Inr p"
proof -
  have "\<exists>r. (if sd = N then getValueAt (y bound) bPoints 1
            else if sd = E then getValueAt (x bound + width bound) bPoints 0
            else if sd = S then getValueAt (y bound + height bound) bPoints 1
            else getValueAt (x bound) bPoints 0) = Inr r"
    using getValueAt_total [OF assms] by simp
  then show ?thesis
    unfolding anchorCandidates_def by (intro bindE_total) simp_all
qed

lemma searchAnchor_total:
  assumes "length bezierPts = length pointBnds" and "list_all (\<lambda>bp. 4 \<le> length bp) bezierPts"
    and "inc \<Longrightarrow> 0 \<le> pos \<and> pos \<le> end' + 1 \<and> end' + 1 \<le> int (length pointBnds)"
    and "\<not> inc \<Longrightarrow> 0 \<le> end' \<and> end' - 1 \<le> pos \<and> pos < int (length pointBnds)"
  shows "\<exists>r. searchAnchor pointBnds bezierPts bound sd inc end' pos = Inr r"
  using assms
proof (induction pointBnds bezierPts bound sd inc end' pos rule: searchAnchor.induct)
  case (1 pointBnds bezierPts bound sd inc end' pos)
  show ?case
  proof (cases "pos = end' + (if inc then 1 else - 1)")
    case True
    then show ?thesis by (subst searchAnchor.simps) simp
  next
    case stop: False
    have range: "0 \<le> pos" "pos < int (length pointBnds)"
      using "1.prems"(3,4) stop by (cases inc; simp)+
    then have inr: "\<not> (pos < 0 \<or> pos \<ge> int (length pointBnds))" by simp
    have nb: "\<not> nat pos \<ge> length bezierPts"
      using range "1.prems"(1) by simp
    then have "4 \<le> length (bezierPts ! nat pos)"
      using "1.prems"(2) by (simp add: list_all_length)
    then obtain p where p: "anchorCandidates bound sd (bezierPts ! nat pos) = Inr p"
      using anchorCandidates_total by blast
    have next_ok:
      "inc \<Longrightarrow> 0 \<le> pos + (if inc then 1 else - 1) \<and> pos + (if inc then 1 else - 1) \<le> end' + 1
          \<and> end' + 1 \<le> int (length pointBnds)"
      "\<not> inc \<Longrightarrow> 0 \<le> end' \<and> end' - 1 \<le> pos + (if inc then 1 else - 1)
          \<and> pos + (if inc then 1 else - 1) < int (length pointBnds)"
      using "1.prems"(3,4) stop by auto
    show ?thesis
    proof (cases "isCrossingBounds (pointBnds ! nat pos) bound")
      case cross: True
      show ?thesis
      proof (cases "length p > 0")
        case True
        then show ?thesis
          using stop inr cross nb p by (subst searchAnchor.simps) simp
      next
        case False
        have "\<exists>r. searchAnchor pointBnds bezierPts bound sd inc end' (pos + (if inc then 1 else - 1)) = Inr r"
          using "1.IH"(1) [OF stop inr cross nb p False "1.prems"(1,2) next_ok] .
        then show ?thesis
          using stop inr cross nb p False by (subst searchAnchor.simps) simp
      qed
    next
      case False
      have "\<exists>r. searchAnchor pointBnds bezierPts bound sd inc end' (pos + (if inc then 1 else - 1)) = Inr r"
        using "1.IH"(2) [OF stop inr False "1.prems"(1,2) next_ok] .
      then show ?thesis
        using stop inr False by (subst searchAnchor.simps) simp
    qed
  qed
qed

lemma searchAnchor_found:
  assumes "searchAnchor pointBnds bezierPts bound sd inc end' pos = Inr (Some p)"
    and "inc \<Longrightarrow> pos \<le> end' + 1" and "\<not> inc \<Longrightarrow> end' - 1 \<le> pos"
  shows "\<exists>q. inSearchRange inc pos end' q \<and> anchorFoundAt pointBnds bezierPts bound sd q"
  using assms
proof (induction pointBnds bezierPts bound sd inc end' pos rule: searchAnchor.induct)
  case (1 pointBnds bezierPts bound sd inc end' pos)
  have stop: "pos \<noteq> end' + (if inc then 1 else - 1)"
    using "1.prems"(1) by (subst (asm) searchAnchor.simps) (auto split: if_splits)
  have inr: "\<not> (pos < 0 \<or> pos \<ge> int (length pointBnds))"
    using "1.prems"(1) stop by (subst (asm) searchAnchor.simps) (auto split: if_splits)
  have here: "inSearchRange inc pos end' pos"
    using "1.prems"(2,3) stop by (cases inc) (auto simp: inSearchRange_def)
  have next_ok: "inc \<Longrightarrow> pos + (if inc then 1 else - 1) \<le> end' + 1"
    "\<not> inc \<Longrightarrow> end' - 1 \<le> pos + (if inc then 1 else - 1)"
    using "1.prems"(2,3) stop by auto
  have widen: "inSearchRange inc pos end' q"
    if "inSearchRange inc (pos + (if inc then 1 else - 1)) end' q" for q
    using that by (cases inc) (auto simp: inSearchRange_def)
  show ?case
  proof (cases "isCrossingBounds (pointBnds ! nat pos) bound")
    case cross: True
    have nb: "\<not> nat pos \<ge> length bezierPts"
      using "1.prems"(1) stop inr cross by (subst (asm) searchAnchor.simps) (auto split: if_splits)
    obtain ps where ps: "anchorCandidates bound sd (bezierPts ! nat pos) = Inr ps"
      using "1.prems"(1) stop inr cross nb
      by (subst (asm) searchAnchor.simps) (auto split: if_splits sum.splits)
    show ?thesis
    proof (cases "length ps > 0")
      case True
      then have "anchorFoundAt pointBnds bezierPts bound sd pos"
        using cross ps by (simp add: anchorFoundAt_def)
      with here show ?thesis by blast
    next
      case False
      have "searchAnchor pointBnds bezierPts bound sd inc end' (pos + (if inc then 1 else - 1)) = Inr (Some p)"
        using "1.prems"(1) stop inr cross nb ps False by (subst (asm) searchAnchor.simps) simp
      from "1.IH"(1) [OF stop inr cross nb ps False this next_ok]
      show ?thesis using widen by blast
    qed
  next
    case False
    have "searchAnchor pointBnds bezierPts bound sd inc end' (pos + (if inc then 1 else - 1)) = Inr (Some p)"
      using "1.prems"(1) stop inr False by (subst (asm) searchAnchor.simps) simp
    from "1.IH"(2) [OF stop inr False this next_ok]
    show ?thesis using widen by blast
  qed
qed


lemma anchorSearch_sameFrame:
  assumes "sameFrame c c'" and "a < length (crossingPoints c)"
  shows "anchorSearch pv cv m c' a = anchorSearch pv cv m c a"
proof -
  have k: "side (crossingPoints c' ! k) = side (crossingPoints c ! k)"
      "incoming (crossingPoints c' ! k) = incoming (crossingPoints c ! k)"
      "section (crossingPoints c' ! k) = section (crossingPoints c ! k)"
      "nodeBounds (crossingPoints c' ! k) = nodeBounds (crossingPoints c ! k)"
    if "k < length (crossingPoints c)" for k
    using assms(1) that by (simp_all add: sameFrame_def)
  have len: "length (crossingPoints c') = length (crossingPoints c)"
    and pb: "pointBounds c' = pointBounds c" and bp: "bezierPoints c' = bezierPoints c"
    using assms(1) by (simp_all add: sameFrame_def)
  have e: "searchEnd c' a = searchEnd c a"
    using assms(2) by (auto simp: searchEnd_def Let_def len k pb)
  have b: "searchBound pv cv m (crossingPoints c' ! a) = searchBound pv cv m (crossingPoints c ! a)"
    using assms(2) by (simp add: searchBound_def k)
  show ?thesis
    using assms(2) by (simp add: anchorSearch_def Let_def e b pb bp k)
qed

lemma sameFrame_refl: "sameFrame c c"
  by (simp add: sameFrame_def)

lemma sameFrame_trans: "sameFrame c c' \<Longrightarrow> sameFrame c' c'' \<Longrightarrow> sameFrame c c''"
  by (simp add: sameFrame_def)

lemma wellFormedCrossing_sameFrame:
  assumes "sameFrame c c'" and "wellFormedCrossing c"
  shows "wellFormedCrossing c'"
proof -
  have "map section (crossingPoints c') = map section (crossingPoints c)"
    using assms(1) by (intro nth_equalityI) (simp_all add: sameFrame_def)
  moreover have "list_all (\<lambda>cp. section cp < length (pointBounds c)) (crossingPoints c')"
    using assms by (simp add: sameFrame_def wellFormedCrossing_def list_all_length)
  ultimately show ?thesis
    using assms by (simp add: sameFrame_def wellFormedCrossing_def)
qed

lemma searchEnd_bounds:
  assumes "wellFormedCrossing c" and "a < length (crossingPoints c)"
  shows "incoming (crossingPoints c ! a) \<Longrightarrow>
           0 \<le> int (section (crossingPoints c ! a))
         \<and> int (section (crossingPoints c ! a)) \<le> searchEnd c a + 1
         \<and> searchEnd c a + 1 \<le> int (length (pointBounds c))"
    and "\<not> incoming (crossingPoints c ! a) \<Longrightarrow>
           0 \<le> searchEnd c a \<and> searchEnd c a - 1 \<le> int (section (crossingPoints c ! a))
         \<and> int (section (crossingPoints c ! a)) < int (length (pointBounds c))"
proof -
  let ?cps = "crossingPoints c"
  have sec: "section (?cps ! k) < length (pointBounds c)" if "k < length ?cps" for k
    using assms(1) that by (simp add: wellFormedCrossing_def list_all_length)
  have mono: "section (?cps ! j) \<le> section (?cps ! k)" if "j \<le> k" "k < length ?cps" for j k
    using assms(1) that sorted_nth_mono [of "map section ?cps" j k]
    by (simp add: wellFormedCrossing_def)
  show "0 \<le> int (section (?cps ! a)) \<and> int (section (?cps ! a)) \<le> searchEnd c a + 1
      \<and> searchEnd c a + 1 \<le> int (length (pointBounds c))" if "incoming (?cps ! a)"
  proof (cases "a + 1 \<ge> length ?cps")
    case True
    then show ?thesis using that sec [OF assms(2)] by (simp add: searchEnd_def Let_def)
  next
    case False
    then show ?thesis
      using that mono [of a "a + 1"] sec [of "a + 1"] by (simp add: searchEnd_def Let_def)
  qed
  show "0 \<le> searchEnd c a \<and> searchEnd c a - 1 \<le> int (section (?cps ! a))
      \<and> int (section (?cps ! a)) < int (length (pointBounds c))" if "\<not> incoming (?cps ! a)"
  proof (cases "a = 0")
    case True
    then show ?thesis using that sec [OF assms(2)] by (simp add: searchEnd_def Let_def)
  next
    case False
    then show ?thesis
      using that mono [of "a - 1" a] sec [OF assms(2)] assms(2) by (simp add: searchEnd_def Let_def)
  qed
qed

lemma anchorSearch_total:
  assumes "wellFormedCrossing c" and "a < length (crossingPoints c)"
  shows "\<exists>r. anchorSearch pv cv m c a = Inr r"
  unfolding anchorSearch_def Let_def
  using assms(1) searchEnd_bounds [OF assms]
  by (intro searchAnchor_total) (simp_all add: wellFormedCrossing_def)

lemma anchorSearch_none:
  assumes "wellFormedCrossing c" and "a < length (crossingPoints c)"
    and "\<forall>q. inSearchRange (incoming (crossingPoints c ! a)) (int (section (crossingPoints c ! a)))
                (searchEnd c a) q
             \<longrightarrow> \<not> anchorFoundAt (pointBounds c) (bezierPoints c)
                     (searchBound pv cv m (crossingPoints c ! a)) (side (crossingPoints c ! a)) q"
  shows "anchorSearch pv cv m c a = Inr None"
proof -
  obtain r where r: "anchorSearch pv cv m c a = Inr r"
    using anchorSearch_total [OF assms(1,2)] by blast
  show ?thesis
  proof (cases r)
    case None
    with r show ?thesis by simp
  next
    case (Some p)
    then have "searchAnchor (pointBounds c) (bezierPoints c)
        (searchBound pv cv m (crossingPoints c ! a)) (side (crossingPoints c ! a))
        (incoming (crossingPoints c ! a)) (searchEnd c a) (int (section (crossingPoints c ! a)))
        = Inr (Some p)"
      using r by (simp add: anchorSearch_def Let_def)
    from searchAnchor_found [OF this] searchEnd_bounds [OF assms(1,2)] assms(3)
    show ?thesis by blast
  qed
qed

lemma placeCrossingPoint_step:
  assumes "wellFormedCrossing c" and "a < length (crossingPoints c)"
  shows "\<exists>c'. placeCrossingPoint pv cv anc m a c = Inr c' \<and> sameFrame c c'
           \<and> (\<forall>k < length (crossingPoints c). k \<noteq> a \<longrightarrow> crossingPoints c' ! k = crossingPoints c ! k)
           \<and> (anchorSearch pv cv m c a = Inr None \<longrightarrow> c' = c)"
proof -
  obtain r where r: "anchorSearch pv cv m c a = Inr r"
    using anchorSearch_total [OF assms] by blast
  show ?thesis
  proof (cases r)
    case None
    then show ?thesis
      using r by (simp add: placeCrossingPoint_def sameFrame_refl)
  next
    case (Some p)
    let ?c' = "c\<lparr>crossingPoints := (crossingPoints c)
                       [a := (crossingPoints c ! a)\<lparr>proxyPoint := p, anchor := anc\<rparr>]\<rparr>"
    have "sameFrame c ?c'"
      using assms(2) by (auto simp: sameFrame_def nth_list_update)
    then show ?thesis
      using r Some by (simp add: placeCrossingPoint_def)
  qed
qed

lemma foldE_placeCrossingPoint:
  assumes "wellFormedCrossing c" and "distinct idxs" and "\<forall>a \<in> set idxs. a < length (crossingPoints c)"
  shows "\<exists>c'. foldE (placeCrossingPoint pv cv anc m) idxs c = Inr c' \<and> sameFrame c c'
           \<and> (\<forall>k < length (crossingPoints c). k \<notin> set idxs \<longrightarrow> crossingPoints c' ! k = crossingPoints c ! k)
           \<and> (\<forall>k \<in> set idxs. anchorSearch pv cv m c k = Inr None
                 \<longrightarrow> crossingPoints c' ! k = crossingPoints c ! k)"
  using assms
proof (induction idxs arbitrary: c)
  case Nil
  then show ?case by (simp add: sameFrame_refl)
next
  case (Cons a idxs)
  have a: "a < length (crossingPoints c)" using Cons.prems(3) by simp
  obtain c1 where c1: "placeCrossingPoint pv cv anc m a c = Inr c1" "sameFrame c c1"
    "\<And>k. k < length (crossingPoints c) \<Longrightarrow> k \<noteq> a \<Longrightarrow> crossingPoints c1 ! k = crossingPoints c ! k"
    "anchorSearch pv cv m c a = Inr None \<Longrightarrow> c1 = c"
    using placeCrossingPoint_step [OF Cons.prems(1) a, of pv cv anc m] by blast
  have len1: "length (crossingPoints c1) = length (crossingPoints c)"
    using c1(2) by (simp add: sameFrame_def)
  have wf1: "wellFormedCrossing c1"
    using c1(2) Cons.prems(1) by (rule wellFormedCrossing_sameFrame)
  have "\<forall>a \<in> set idxs. a < length (crossingPoints c1)"
    using Cons.prems(3) len1 by simp
  with Cons.IH [OF wf1] Cons.prems(2)
  obtain c' where c': "foldE (placeCrossingPoint pv cv anc m) idxs c1 = Inr c'" "sameFrame c1 c'"
    "\<And>k. k < length (crossingPoints c1) \<Longrightarrow> k \<notin> set idxs \<Longrightarrow> crossingPoints c' ! k = crossingPoints c1 ! k"
    "\<And>k. k \<in> set idxs \<Longrightarrow> anchorSearch pv cv m c1 k = Inr None
        \<Longrightarrow> crossingPoints c' ! k = crossingPoints c1 ! k"
    by auto
  have "foldE (placeCrossingPoint pv cv anc m) (a # idxs) c = Inr c'"
    by (simp add: c1(1) c'(1))
  moreover have "sameFrame c c'"
    using c1(2) c'(2) by (rule sameFrame_trans)
  moreover have "crossingPoints c' ! k = crossingPoints c ! k"
    if "k < length (crossingPoints c)" "k \<notin> set (a # idxs)" for k
    using that c1(3) [of k] c'(3) [of k] len1 by simp
  moreover have "crossingPoints c' ! k = crossingPoints c ! k"
    if "k \<in> set (a # idxs)" "anchorSearch pv cv m c k = Inr None" for k
  proof (cases "k = a")
    case True
    then have "k \<notin> set idxs" using Cons.prems(2) by simp
    then show ?thesis
      using c'(3) [of k] c1(4) that(2) True a len1 by simp
  next
    case False
    then have kin: "k \<in> set idxs" using that(1) by simp
    then have klen: "k < length (crossingPoints c)" using Cons.prems(3) by simp
    have "anchorSearch pv cv m c1 k = Inr None"
      using anchorSearch_sameFrame [OF c1(2) klen, of pv cv m] that(2) by simp
    then show ?thesis
      using c'(4) [OF kin] c1(3) [OF klen False] by simp
  qed
  ultimately show ?case by blast
qed

lemma mapE_nth:
  assumes "mapE f vs = Inr ws"
  shows "length ws = length vs \<and> (\<forall>i < length vs. f (vs ! i) = Inr (ws ! i))"
  using assms
proof (induction vs arbitrary: ws)
  case Nil
  then show ?case by simp
next
  case (Cons v vs)
  then obtain w ws' where w: "f v = Inr w" "mapE f vs = Inr ws'" "ws = w # ws'"
    by (auto simp: bindE_def split: sum.splits)
  then show ?case
    using Cons.IH [OF w(2)] by (auto simp: nth_Cons split: nat.splits)
qed


subsection \<open>The crossings that \<^verbatim>\<open>getCrossings\<close> builds are well formed\<close>

lemma mapE_sections:
  assumes "mapE f vs = Inr ws" and "\<And>v w. f v = Inr w \<Longrightarrow> P w"
  shows "list_all P ws"
  using assms(1)
proof (induction vs arbitrary: ws)
  case Nil
  then show ?case by simp
next
  case (Cons v vs)
  then obtain w ws' where w: "f v = Inr w" "mapE f vs = Inr ws'" "ws = w # ws'"
    by (auto simp: bindE_def split: sum.splits)
  then show ?case
    using Cons.IH [OF w(2)] assms(2) [OF w(1)] by simp
qed

lemma makeCrossingPoint_section:
  "makeCrossingPoint pv c e i bPoints cp = Inr w \<Longrightarrow> section w = i"
  by (auto simp: makeCrossingPoint_def bindE_def Let_def split: sum.splits prod.splits)

lemma segmentCrossings_section:
  assumes "segmentCrossings pv c e i pb bPoints = Inr ws"
  shows "list_all (\<lambda>w. section w = i) ws"
proof (cases "isCrossingBounds pb c")
  case True
  then obtain cPoints where
    "mapE (makeCrossingPoint pv c e i bPoints) (graceFilter c cPoints) = Inr ws"
    using assms by (auto simp: segmentCrossings_def bindE_def split: sum.splits)
  then show ?thesis
    by (rule mapE_sections) (rule makeCrossingPoint_section)
next
  case False
  then show ?thesis using assms by (simp add: segmentCrossings_def)
qed

lemma concat_sections_sorted:
  assumes "\<And>i. i < length found \<Longrightarrow> list_all (\<lambda>w. section w = k + i) (found ! i)"
  shows "sorted (map section (concat found))
       \<and> list_all (\<lambda>w. k \<le> section w \<and> section w < k + length found) (concat found)"
  using assms
proof (induction found arbitrary: k)
  case Nil
  then show ?case by simp
next
  case (Cons ws found)
  have hd: "list_all (\<lambda>w. section w = k) ws"
    using Cons.prems [of 0] by simp
  have "list_all (\<lambda>w. section w = Suc k + i) (found ! i)" if "i < length found" for i
    using Cons.prems [of "Suc i"] that by simp
  from Cons.IH [of "Suc k", OF this]
  have tl: "sorted (map section (concat found))"
    "list_all (\<lambda>w. Suc k \<le> section w \<and> section w < Suc k + length found) (concat found)"
    by simp_all
  have "sorted (map section ws)"
    using hd by (induction ws) (auto simp: list_all_iff)
  moreover have "\<forall>a \<in> set (map section ws). \<forall>b \<in> set (map section (concat found)). a \<le> b"
    using hd tl(2) by (fastforce simp: list_all_iff)
  ultimately have "sorted (map section ws @ map section (concat found))"
    using tl(1) by (simp add: sorted_append)
  moreover have "list_all (\<lambda>w. k \<le> section w \<and> section w < k + length (ws # found)) (concat (ws # found))"
    using hd tl(2) by (fastforce simp: list_all_iff)
  ultimately show ?case by simp
qed

lemma edgeCrossings_wellFormed:
  assumes "edgeCrossings pv c e st = Inr st'" and "list_all wellFormedCrossing (fst st)"
  shows "list_all wellFormedCrossing (fst st')"
proof (cases "length (routingPoints e) mod 3 = 1 \<and> length (routingPoints e) \<ge> 4")
  case False
  then show ?thesis
    using assms by (auto simp: edgeCrossings_def Let_def)
next
  case True
  define rpoints where "rpoints = map (\<lambda>p. \<lparr>x = x p + (x (canvasBounds e) - x (ebounds e)),
      y = y p + (y (canvasBounds e) - y (ebounds e))\<rparr>) (routingPoints e)"
  define bezierPts where "bezierPts = map (\<lambda>i. slice rpoints (i * 3) (i * 3 + 4)) [0 ..< length rpoints div 3]"
  define pointBnds where "pointBnds = map (\<lambda>bpoints. the (getBoundsFromPoints bpoints)) bezierPts"
  have len: "length rpoints mod 3 = 1" "length rpoints \<ge> 4"
    using True by (simp_all add: rpoints_def)
  have unfold: "edgeCrossings pv c e st =
      bindE (mapE (\<lambda>i. segmentCrossings pv c e i (pointBnds ! i) (bezierPts ! i)) [0 ..< length pointBnds])
        (\<lambda>found. Inr (fst st @ [\<lparr>edge = e, pointBounds = pointBnds, bezierPoints = bezierPts,
                                  crossingPoints = concat found\<rparr>], snd st))"
    using len unfolding edgeCrossings_def Let_def
    by (simp flip: rpoints_def bezierPts_def pointBnds_def)
  then obtain found where found:
    "mapE (\<lambda>i. segmentCrossings pv c e i (pointBnds ! i) (bezierPts ! i)) [0 ..< length pointBnds] = Inr found"
    and st': "st' = (fst st @ [\<lparr>edge = e, pointBounds = pointBnds, bezierPoints = bezierPts,
                                  crossingPoints = concat found\<rparr>], snd st)"
    using assms(1) by (auto simp: bindE_def split: sum.splits)
  have flen: "length found = length pointBnds"
    and fnth: "\<And>i. i < length pointBnds \<Longrightarrow>
        segmentCrossings pv c e i (pointBnds ! i) (bezierPts ! i) = Inr (found ! i)"
    using mapE_nth [OF found] by auto
  have "list_all (\<lambda>w. section w = 0 + i) (found ! i)" if "i < length found" for i
    using segmentCrossings_section [OF fnth [of i]] that flen by simp
  from concat_sections_sorted [OF this]
  have secs: "sorted (map section (concat found))"
    "list_all (\<lambda>w. section w < length pointBnds) (concat found)"
    using flen by (simp_all add: list_all_iff)
  have four: "list_all (\<lambda>bp. 4 \<le> length bp) bezierPts"
    using length_slice [OF len(1)] by (simp add: bezierPts_def list_all_iff)
  have "wellFormedCrossing \<lparr>edge = e, pointBounds = pointBnds, bezierPoints = bezierPts,
                                  crossingPoints = concat found\<rparr>"
    using secs four by (simp add: wellFormedCrossing_def pointBnds_def)
  then show ?thesis
    using assms(2) by (simp add: st')
qed

lemma foldE_edgeCrossings_wellFormed:
  assumes "foldE (edgeCrossings pv c) es st = Inr st'" and "list_all wellFormedCrossing (fst st)"
  shows "list_all wellFormedCrossing (fst st')"
  using assms
proof (induction es arbitrary: st)
  case Nil
  then show ?case by simp
next
  case (Cons e es)
  then obtain st1 where st1: "edgeCrossings pv c e st = Inr st1"
    "foldE (edgeCrossings pv c) es st1 = Inr st'"
    by (auto simp: bindE_def split: sum.splits)
  show ?case
    using Cons.IH [OF st1(2) edgeCrossings_wellFormed [OF st1(1) Cons.prems(2)]] .
qed

lemma getCrossings_wellFormed:
  assumes "getCrossings pv es c = Inr (crossings, lg)"
  shows "list_all wellFormedCrossing crossings"
  using foldE_edgeCrossings_wellFormed [of pv c es "([], [])" "(crossings, lg)"] assms
  by (simp add: getCrossings_def)

subsection \<open>The anchor search changes nothing else\<close>

text \<open>
  C8: on well-formed crossings, which is what \<^verbatim>\<open>getCrossings\<close> builds,
  \<^verbatim>\<open>updateProxyPlacementPoints\<close> returns, and writes to nothing but the anchor point and
  the anchor of a crossing point: the side of every crossing point is as before, and a
  crossing point is as before altogether, its anchor point included, when no segment in
  the range of its search both crosses the rectangle of the search and has a point on the
  side of the crossing that the filter leaves.
\<close>

theorem updateProxyPlacementPoints_fallback:
  assumes "list_all wellFormedCrossing crossings"
  shows "\<exists>crossings'.
           updateProxyPlacementPointsWith anc pv crossings canvasCRF = Inr crossings'
         \<and> (anc = towardsMiddle \<longrightarrow> updateProxyPlacementPoints pv crossings canvasCRF = Inr crossings')
         \<and> length crossings' = length crossings
         \<and> (\<forall>i < length crossings.
               sameFrame (crossings ! i) (crossings' ! i)
             \<and> (\<forall>a < length (crossingPoints (crossings ! i)).
                  let c = crossings ! i;
                      cp = crossingPoints c ! a;
                      cp' = crossingPoints (crossings' ! i) ! a;
                      bound = searchBound pv canvasCRF (offsetMultiplierOf anc) cp
                  in side cp' = side cp
                   \<and> ((\<forall>q. inSearchRange (incoming cp) (int (section cp)) (searchEnd c a) q
                            \<longrightarrow> \<not> anchorFoundAt (pointBounds c) (bezierPoints c) bound (side cp) q)
                        \<longrightarrow> proxyPoint cp' = proxyPoint cp \<and> cp' = cp)))"
proof -
  let ?m = "offsetMultiplierOf anc"
  let ?f = "\<lambda>crossing. foldE (placeCrossingPoint pv canvasCRF anc ?m)
                   [0 ..< length (crossingPoints crossing)] crossing"
  have each: "\<exists>c'. ?f c = Inr c' \<and> sameFrame c c'
      \<and> (\<forall>k < length (crossingPoints c). anchorSearch pv canvasCRF ?m c k = Inr None
            \<longrightarrow> crossingPoints c' ! k = crossingPoints c ! k)"
    if "wellFormedCrossing c" for c
    using foldE_placeCrossingPoint [OF that, of "[0 ..< length (crossingPoints c)]" pv canvasCRF anc ?m]
    by auto
  have "\<exists>w. ?f c = Inr w" if "c \<in> set crossings" for c
    using each [of c] assms that by (auto simp: list_all_iff)
  then obtain crossings' where res: "mapE ?f crossings = Inr crossings'"
    using mapE_total [of crossings ?f] by blast
  have len: "length crossings' = length crossings"
    and nth: "\<And>i. i < length crossings \<Longrightarrow> ?f (crossings ! i) = Inr (crossings' ! i)"
    using mapE_nth [OF res] by auto
  have upd: "updateProxyPlacementPointsWith anc pv crossings canvasCRF = Inr crossings'"
    using res by (simp add: updateProxyPlacementPointsWith_def Let_def)
  have main: "sameFrame (crossings ! i) (crossings' ! i)
             \<and> (\<forall>a < length (crossingPoints (crossings ! i)).
                  let c = crossings ! i;
                      cp = crossingPoints c ! a;
                      cp' = crossingPoints (crossings' ! i) ! a;
                      bound = searchBound pv canvasCRF (offsetMultiplierOf anc) cp
                  in side cp' = side cp
                   \<and> ((\<forall>q. inSearchRange (incoming cp) (int (section cp)) (searchEnd c a) q
                            \<longrightarrow> \<not> anchorFoundAt (pointBounds c) (bezierPoints c) bound (side cp) q)
                        \<longrightarrow> proxyPoint cp' = proxyPoint cp \<and> cp' = cp))"
    if i: "i < length crossings" for i
  proof -
    let ?c = "crossings ! i" and ?c' = "crossings' ! i"
    have wf: "wellFormedCrossing ?c"
      using assms i by (simp add: list_all_length)
    from each [OF wf] nth [OF i]
    have sf: "sameFrame ?c ?c'"
      and keep: "\<And>k. k < length (crossingPoints ?c) \<Longrightarrow> anchorSearch pv canvasCRF ?m ?c k = Inr None
            \<Longrightarrow> crossingPoints ?c' ! k = crossingPoints ?c ! k"
      by auto
    have "side (crossingPoints ?c' ! a) = side (crossingPoints ?c ! a)"
      if "a < length (crossingPoints ?c)" for a
      using sf that by (simp add: sameFrame_def)
    moreover have "crossingPoints ?c' ! a = crossingPoints ?c ! a"
      if "a < length (crossingPoints ?c)"
        and "\<forall>q. inSearchRange (incoming (crossingPoints ?c ! a)) (int (section (crossingPoints ?c ! a)))
                (searchEnd ?c a) q
             \<longrightarrow> \<not> anchorFoundAt (pointBounds ?c) (bezierPoints ?c)
                     (searchBound pv canvasCRF ?m (crossingPoints ?c ! a)) (side (crossingPoints ?c ! a)) q"
      for a
      using keep [OF that(1)] anchorSearch_none [OF wf that] by simp
    ultimately show ?thesis
      using sf by (simp add: Let_def)
  qed
  have upd': "updateProxyPlacementPoints pv crossings canvasCRF = Inr crossings'" if "anc = towardsMiddle"
    using upd that by (simp add: updateProxyPlacementPoints_def)
  show ?thesis
    using upd upd' len main by (intro exI [of _ crossings']) blast
qed

lemma sampleCrossing_wellFormed: "wellFormedCrossing sampleCrossing"
  by (simp add: wellFormedCrossing_def sampleCrossing_def scenarioRoute_def sampleCrossingPoint_def)

theorem updateProxyPlacementPoints_fallback_witness:
  "\<exists>crossings'. updateProxyPlacementPoints defaultView [sampleCrossing] scenarioCanvas = Inr crossings'
     \<and> side (crossingPoints (crossings' ! 0) ! 0) = N"
proof -
  have wf: "list_all wellFormedCrossing [sampleCrossing]"
    by (simp add: sampleCrossing_wellFormed)
  from updateProxyPlacementPoints_fallback [OF wf, of towardsMiddle defaultView scenarioCanvas]
  obtain crossings' where
    "updateProxyPlacementPoints defaultView [sampleCrossing] scenarioCanvas = Inr crossings'"
    and "side (crossingPoints (crossings' ! 0) ! 0) = side (crossingPoints sampleCrossing ! 0)"
    by (auto simp: Let_def sampleCrossing_def)
  then show ?thesis
    by (auto simp: sampleCrossing_def sampleCrossingPoint_def)
qed

subsection \<open>The overlap filter\<close>

lemma filterPoints_Some:
  "filterPoints pv cv rt nodes (Some d) cps = filter (\<lambda>cp. \<not> foundOverlap pv cv nodes d cp) cps"
  by (induction cps) (simp_all add: Let_def)

lemma filterPoints_None:
  "filterPoints pv cv rt nodes None (cp # cps) =
     filter (\<lambda>q. \<not> foundOverlap pv cv nodes (getDepth (node cp) rt) q) (cp # cps)"
  by (simp add: Let_def filterPoints_Some)

text \<open>What the filter keeps, for every list of crossings.\<close>

lemma filterOverlappingWithNodes_baseline:
  "filterOverlappingWithNodes pv crossings rt cv =
     concat (map (\<lambda>c.
        let kept = filter (\<lambda>cp. \<not> foundOverlap pv cv (getTreeDepths rt) (baselineDepth (fst rt) c) cp)
                     (crossingPoints c)
        in if kept \<noteq> [] then [c\<lparr>crossingPoints := kept\<rparr>] else []) crossings)"
proof -
  have eq: "filterPoints pv cv (fst rt) (getTreeDepths rt)
          (if isSKNode (target (edge c)) \<and> isSKNode (source (edge c))
           then Some (max (getDepth (source (edge c)) (fst rt)) (getDepth (target (edge c)) (fst rt)))
           else None) (crossingPoints c)
        = filter (\<lambda>cp. \<not> foundOverlap pv cv (getTreeDepths rt) (baselineDepth (fst rt) c) cp)
            (crossingPoints c)" for c
  proof (cases "crossingPoints c")
    case Nil
    then show ?thesis by (simp add: filterPoints_Some)
  next
    case (Cons cp cps)
    then show ?thesis
      by (simp add: baselineDepth_def filterPoints_Some filterPoints_None del: filterPoints.simps)
  qed
  show ?thesis
    unfolding filterOverlappingWithNodes_def Let_def eq by simp
qed

lemma portTree_rows: "getTreeDepths portTree = [[(rootNode, [Node nodeA [], Node nodeT []])], [(nodeA, []), (nodeT, [])]]"
  by (simp add: getTreeDepths_def portTree_def treeRows.simps nextRow_def)

lemma depth_incoming: "getDepth (node incomingPoint) (fst portTree) = 2"
  by (simp add: incomingPoint_def portP_def nodeA_def rootNode_def portTree_def sameObject_def)

lemma depth_outgoing: "getDepth (node outgoingPoint) (fst portTree) = 1"
  by (simp add: outgoingPoint_def nodeT_def rootNode_def portTree_def sameObject_def)

lemma outgoing_overlaps:
  "foundOverlap defaultView scenarioCanvas (getTreeDepths portTree) 1 outgoingPoint"
  by (simp add: foundOverlap_def portTree_rows markerBox_def nodeBox_def isInBounds_def Let_def
      transformWidthHeight_def defaultView_def scenarioCanvas_def outgoingPoint_def nodeA_def)

text \<open>
  C4 at an edge that starts at a port: the depth that the filter starts from is set by the
  first crossing point of the crossing and kept for the others. The outgoing crossing point
  stands for a node of depth 1 and its marker lies over a node of the row 1, yet it
  survives, because the filter starts from the depth 2 of the port of the incoming one.
\<close>

theorem filterOverlappingWithNodes_stale_depth:
  "\<not> isSKNode (source (edge portCrossing))
   \<and> crossingPoints portCrossing = [incomingPoint, outgoingPoint]
   \<and> getDepth (node outgoingPoint) (fst portTree) = 1
   \<and> foundOverlap defaultView scenarioCanvas (getTreeDepths portTree) 1 outgoingPoint
   \<and> filterOverlappingWithNodes defaultView [portCrossing] portTree scenarioCanvas = [portCrossing]"
proof -
  have a: "\<not> isSKNode (source (edge portCrossing))"
    by (simp add: portCrossing_def portEdge_def portP_def)
  have b: "crossingPoints portCrossing = [incomingPoint, outgoingPoint]"
    by (simp add: portCrossing_def)
  have none: "\<not> foundOverlap defaultView scenarioCanvas (getTreeDepths portTree) 2 cp" for cp
    by (simp add: foundOverlap_def portTree_rows)
  have "filterOverlappingWithNodes defaultView [portCrossing] portTree scenarioCanvas = [portCrossing]"
    using a by (simp add: filterOverlappingWithNodes_def Let_def b depth_incoming none)
  then show ?thesis
    using a b depth_outgoing outgoing_overlaps by simp
qed

subsection \<open>The root solver finds every root\<close>

lemma crt_root: "crt v = root 3 v"
proof (cases "v < 0")
  case True
  then have "root 3 (- v) = (- v) powr (1 / 3)"
    using root_powr_inverse [of 3 "- v"] by simp
  then show ?thesis
    using True by (simp add: crt_def real_root_minus)
next
  case False
  then have "root 3 v = v powr (1 / 3)"
    using root_powr_inverse [of 3 v] by simp
  then show ?thesis
    using False by (simp add: crt_def)
qed

lemma crt_cube: "crt v ^ 3 = v"
  by (simp add: crt_root odd_real_root_pow)

lemma crt_of_cube: "crt (v ^ 3) = v"
  by (simp add: crt_root odd_real_root_power_cancel)

lemma crt_mult: "crt (v * w) = crt v * crt w"
  by (simp add: crt_root real_root_mult)

lemma crt_minus: "crt (- v) = - crt v"
  by (simp add: crt_root real_root_minus)

lemma cube_inj: "(v::real) ^ 3 = w ^ 3 \<Longrightarrow> v = w"
  by (metis crt_of_cube)

lemma depressed_cubic:
  fixes u a b c :: real
  shows "u ^ 3 + a * u ^ 2 + b * u + c =
         (u + a / 3) ^ 3 + ((3 * b - a * a) / 3) * (u + a / 3) + (2 * a * a * a - 9 * a * b + 27 * c) / 27"
  by (simp add: power3_eq_cube power2_eq_square field_simps)

text \<open>Two roots of a depressed cubic differ only when a quadratic vanishes.\<close>

lemma depressed_two_roots:
  fixes v w p q :: real
  assumes "v ^ 3 + p * v + q = 0" and "w ^ 3 + p * w + q = 0" and "v \<noteq> w"
  shows "v ^ 2 + v * w + w ^ 2 + p = 0"
proof -
  have "(v - w) * (v ^ 2 + v * w + w ^ 2 + p) = (v ^ 3 + p * v + q) - (w ^ 3 + p * w + q)"
    by (simp add: power3_eq_cube power2_eq_square algebra_simps)
  then have "(v - w) * (v ^ 2 + v * w + w ^ 2 + p) = 0"
    using assms(1,2) by simp
  then show ?thesis using assms(3) by simp
qed

lemma cardano_root:
  fixes p q :: real
  assumes "0 < (q / 2) * (q / 2) + (p / 3) * (p / 3) * (p / 3)"
  defines "sd \<equiv> sqrt ((q / 2) * (q / 2) + (p / 3) * (p / 3) * (p / 3))"
  defines "w \<equiv> crt (- (q / 2) + sd) - crt (q / 2 + sd)"
  shows "w ^ 3 + p * w + q = 0"
proof -
  let ?u = "crt (- (q / 2) + sd)" and ?v = "crt (q / 2 + sd)"
  have sd2: "sd * sd = (q / 2) * (q / 2) + (p / 3) * (p / 3) * (p / 3)"
    using assms(1) by (simp add: sd_def)
  have "?u * ?v = crt ((- (q / 2) + sd) * (q / 2 + sd))"
    by (simp add: crt_mult)
  also have "(- (q / 2) + sd) * (q / 2 + sd) = sd * sd - (q / 2) * (q / 2)"
    by (simp add: algebra_simps)
  also have "\<dots> = (p / 3) ^ 3"
    by (simp add: sd2 power3_eq_cube)
  finally have uv: "?u * ?v = p / 3"
    by (simp add: crt_of_cube)
  have "w ^ 3 = ?u ^ 3 - ?v ^ 3 - 3 * (?u * ?v) * w"
    unfolding w_def by (simp add: power3_eq_cube algebra_simps)
  also have "\<dots> = (- (q / 2) + sd) - (q / 2 + sd) - 3 * (p / 3) * w"
    by (simp only: crt_cube uv)
  finally show ?thesis by simp
qed

lemma one_real_root:
  fixes p q v w :: real
  assumes disc: "0 < (q / 2) * (q / 2) + (p / 3) * (p / 3) * (p / 3)"
    and "v ^ 3 + p * v + q = 0" and "w ^ 3 + p * w + q = 0"
  shows "v = w"
proof (rule ccontr)
  assume neq: "v \<noteq> w"
  have quad: "v ^ 2 + v * w + w ^ 2 + p = 0"
    using depressed_two_roots [OF assms(2,3) neq] .
  have q: "q = - (w ^ 3) - p * w" using assms(3) by simp
  have "- 4 * p ^ 3 - 27 * q ^ 2 = (- 3 * w ^ 2 - 4 * p) * (3 * w ^ 2 + p) ^ 2"
    unfolding q by (simp add: power3_eq_cube power2_eq_square algebra_simps)
  moreover have "- 4 * p ^ 3 - 27 * q ^ 2 = - 108 * ((q / 2) * (q / 2) + (p / 3) * (p / 3) * (p / 3))"
    by (simp add: power3_eq_cube power2_eq_square algebra_simps)
  ultimately have neg: "(- 3 * w ^ 2 - 4 * p) * (3 * w ^ 2 + p) ^ 2 < 0"
    using disc by simp
  have "0 \<le> (3 * w ^ 2 + p) ^ 2" by simp
  then have "- 3 * w ^ 2 - 4 * p < 0"
    using neg by (metis mult_nonneg_nonneg not_le)
  moreover have "(2 * v + w) ^ 2 = - 3 * w ^ 2 - 4 * p"
    using quad by (simp add: power2_eq_square algebra_simps)
  ultimately show False
    by (metis not_le zero_le_power2)
qed


lemma repeated_root:
  fixes p q v :: real
  assumes disc: "(q / 2) * (q / 2) + (p / 3) * (p / 3) * (p / 3) = 0"
    and root: "v ^ 3 + p * v + q = 0"
  shows "v = 2 * crt (- (q / 2)) \<or> v = - crt (- (q / 2))"
proof -
  define u1 where "u1 = crt (- (q / 2))"
  have u3: "u1 ^ 3 = - (q / 2)" by (simp add: u1_def crt_cube)
  have "(p / 3) ^ 3 = - ((q / 2) * (q / 2))"
    using disc by (simp add: power3_eq_cube)
  also have "\<dots> = - (u1 ^ 3 * u1 ^ 3)" by (simp add: u3)
  also have "\<dots> = (- (u1 ^ 2)) ^ 3" by (simp add: power3_eq_cube power2_eq_square)
  finally have "p / 3 = - (u1 ^ 2)" by (rule cube_inj)
  then have p: "p = - 3 * u1 ^ 2" by simp
  have q: "q = - 2 * u1 ^ 3" using u3 by simp
  have "(v - 2 * u1) * (v + u1) ^ 2 = v ^ 3 + p * v + q"
    unfolding p q by (simp add: power3_eq_cube power2_eq_square algebra_simps)
  then have "(v - 2 * u1) * (v + u1) ^ 2 = 0" using root by simp
  then have "v = 2 * u1 \<or> v = - u1" by auto
  then show ?thesis by (simp add: u1_def)
qed

lemma three_distinct_roots:
  fixes p q v x0 x1 x2 :: real
  assumes "x0 ^ 3 + p * x0 + q = 0" "x1 ^ 3 + p * x1 + q = 0" "x2 ^ 3 + p * x2 + q = 0"
    and "x0 \<noteq> x1" "x0 \<noteq> x2" "x1 \<noteq> x2"
    and "v ^ 3 + p * v + q = 0"
  shows "v = x0 \<or> v = x1 \<or> v = x2"
proof (rule ccontr)
  assume "\<not> (v = x0 \<or> v = x1 \<or> v = x2)"
  then have v: "v \<noteq> x0" "v \<noteq> x1" "v \<noteq> x2" by auto
  have a: "v ^ 2 + v * x0 + x0 ^ 2 + p = 0"
    using depressed_two_roots [OF assms(7) assms(1) v(1)] .
  have b: "x1 ^ 2 + x1 * x0 + x0 ^ 2 + p = 0"
    using depressed_two_roots [OF assms(2) assms(1)] assms(4) by auto
  have c: "x2 ^ 2 + x2 * x0 + x0 ^ 2 + p = 0"
    using depressed_two_roots [OF assms(3) assms(1)] assms(5) by auto
  have "(v - x1) * (v + x1 + x0) = (v ^ 2 + v * x0 + x0 ^ 2 + p) - (x1 ^ 2 + x1 * x0 + x0 ^ 2 + p)"
    by (simp add: power2_eq_square algebra_simps)
  then have "(v - x1) * (v + x1 + x0) = 0" using a b by simp
  then have d: "v = - x1 - x0" using v(2) by auto
  have "(x2 - x1) * (x2 + x1 + x0) = (x2 ^ 2 + x2 * x0 + x0 ^ 2 + p) - (x1 ^ 2 + x1 * x0 + x0 ^ 2 + p)"
    by (simp add: power2_eq_square algebra_simps)
  then have "(x2 - x1) * (x2 + x1 + x0) = 0" using c b by simp
  then have "x2 = - x1 - x0" using assms(6) by auto
  with d v(3) show False by simp
qed

lemma trig_roots:
  fixes p q :: real
  assumes disc: "(q / 2) * (q / 2) + (p / 3) * (p / 3) * (p / 3) < 0"
  defines "mp3 \<equiv> - p / 3"
  defines "r \<equiv> sqrt (mp3 * mp3 * mp3)"
  defines "t' \<equiv> - q / (2 * r)"
  defines "phi \<equiv> arccos (if t' < - 1 then - 1 else if t' > 1 then 1 else t')"
  defines "t1 \<equiv> 2 * crt r"
  assumes root: "v ^ 3 + p * v + q = 0"
  shows "v = t1 * cos (phi / 3) \<or> v = t1 * cos ((phi + 2 * pi) / 3)
       \<or> v = t1 * cos ((phi + 2 * 2 * pi) / 3)"
proof -
  define s where "s = sqrt mp3"
  have "(p / 3) * (p / 3) * (p / 3) < 0"
    using disc by (smt (verit) zero_le_square)
  then have "p / 3 < 0"
    by (smt (verit) mult_nonneg_nonneg)
  then have mp3: "0 < mp3" by (simp add: mp3_def)
  then have s: "0 < s" "s * s = mp3" by (simp_all add: s_def)
  have "r = sqrt (mp3 ^ 3)" by (simp add: r_def power3_eq_cube)
  then have r: "r = s ^ 3" by (simp add: s_def real_sqrt_power)
  then have rpos: "0 < r" using s(1) by simp
  have crtr: "crt r = s" by (simp add: r crt_of_cube)
  have p: "p = - 3 * (s * s)" by (simp add: s(2) mp3_def)
  have "(q / 2) ^ 2 < r ^ 2"
    using disc by (simp add: r power2_eq_square power3_eq_cube p)
  then have "\<bar>q / 2\<bar> < r"
    using rpos by (metis abs_ge_zero less_eq_real_def power2_abs power2_less_imp_less)
  then have "\<bar>t'\<bar> < 1"
    using rpos by (simp add: t'_def field_simps)
  then have t: "- 1 < t'" "t' < 1" by auto
  then have phi: "phi = arccos t'" by (simp add: phi_def)
  then have cosphi: "cos phi = t'" using t by simp
  have range: "0 < phi" "phi < pi"
    using arccos_lt_bounded [of t'] t phi by auto
  have eq: "(2 * s * cos th) ^ 3 + p * (2 * s * cos th) + q = 0" if "cos (3 * th) = t'" for th
  proof -
    have "(2 * s * cos th) ^ 3 + p * (2 * s * cos th) + q
            = 2 * s ^ 3 * (4 * cos th ^ 3 - 3 * cos th) + q"
      unfolding p by (simp add: power3_eq_cube algebra_simps)
    also have "\<dots> = 2 * r * t' + q"
      using that by (simp add: cos_treble_cos r)
    also have "\<dots> = 0"
      using rpos by (simp add: t'_def)
    finally show ?thesis .
  qed
  let ?x0 = "t1 * cos (phi / 3)" and ?x1 = "t1 * cos ((phi + 2 * pi) / 3)"
    and ?x2 = "t1 * cos ((phi + 2 * 2 * pi) / 3)"
  have t1: "t1 = 2 * s" by (simp add: t1_def crtr)
  have "cos (3 * (phi / 3)) = t'" by (simp add: cosphi)
  then have r0: "?x0 ^ 3 + p * ?x0 + q = 0" unfolding t1 by (rule eq)
  have "3 * ((phi + 2 * pi) / 3) = phi + 2 * pi" by simp
  then have "cos (3 * ((phi + 2 * pi) / 3)) = t'" by (simp only: cos_periodic cosphi)
  then have r1: "?x1 ^ 3 + p * ?x1 + q = 0" unfolding t1 by (rule eq)
  have "phi + 2 * 2 * pi = (phi + 2 * pi) + 2 * pi" by simp
  then have "cos (phi + 2 * 2 * pi) = cos phi"
    by (simp only: cos_periodic)
  moreover have "3 * ((phi + 2 * 2 * pi) / 3) = phi + 2 * 2 * pi" by simp
  ultimately have "cos (3 * ((phi + 2 * 2 * pi) / 3)) = t'" by (simp only: cosphi)
  then have r2: "?x2 ^ 3 + p * ?x2 + q = 0" unfolding t1 by (rule eq)
  have c2: "cos ((phi + 2 * 2 * pi) / 3) = cos ((2 * pi - phi) / 3)"
  proof -
    have "(phi + 2 * 2 * pi) / 3 = 2 * pi - (2 * pi - phi) / 3" by (simp add: field_simps)
    then show ?thesis by (simp only: cos_2pi_minus)
  qed
  have inj: "cos th \<noteq> cos th'" if "0 \<le> th" "th < th'" "th' \<le> pi" for th th'
    using that cos_inj_pi [of th th'] by auto
  have d01: "cos (phi / 3) \<noteq> cos ((phi + 2 * pi) / 3)"
    using range pi_gt_zero by (intro inj) simp_all
  have d02: "cos (phi / 3) \<noteq> cos ((2 * pi - phi) / 3)"
    using range pi_gt_zero by (intro inj) simp_all
  have d21: "cos ((2 * pi - phi) / 3) \<noteq> cos ((phi + 2 * pi) / 3)"
    using range pi_gt_zero by (intro inj) simp_all
  have t1pos: "t1 \<noteq> 0" using s(1) t1 by simp
  have "?x0 \<noteq> ?x1" "?x0 \<noteq> ?x2" "?x1 \<noteq> ?x2"
    using d01 d02 d21 t1pos unfolding c2 by auto
  then show ?thesis
    using three_distinct_roots [OF r0 r1 r2 _ _ _ root] by blast
qed


lemma cubicRoots_complete:
  assumes root: "u ^ 3 + a * u ^ 2 + b * u + c = 0" and red: "reduce u"
  shows "u \<in> set (cubicRoots a b c)"
proof -
  define p where "p = (3 * b - a * a) / 3"
  define q where "q = (2 * a * a * a - 9 * a * b + 27 * c) / 27"
  define v where "v = u + a / 3"
  define mp3 where "mp3 = - p / 3"
  define r where "r = sqrt (mp3 * mp3 * mp3)"
  define t' where "t' = - q / (2 * r)"
  define phi where "phi = arccos (if t' < - 1 then - 1 else if t' > 1 then 1 else t')"
  define t1 where "t1 = 2 * crt r"
  define u0 where "u0 = (if q / 2 < 0 then crt (- (q / 2)) else - crt (q / 2))"
  define sd where "sd = sqrt ((q / 2) * (q / 2) + (p / 3) * (p / 3) * (p / 3))"
  let ?disc = "(q / 2) * (q / 2) + (p / 3) * (p / 3) * (p / 3)"
  have cr: "cubicRoots a b c =
      (if ?disc < 0
       then filter reduce [t1 * cos (phi / 3) - a / 3, t1 * cos ((phi + 2 * pi) / 3) - a / 3,
                           t1 * cos ((phi + 2 * 2 * pi) / 3) - a / 3]
       else if ?disc = 0 then filter reduce [2 * u0 - a / 3, - u0 - a / 3]
       else filter reduce [crt (- (q / 2) + sd) - crt (q / 2 + sd) - a / 3])"
    unfolding cubicRoots_def Let_def t1_def phi_def t'_def r_def mp3_def u0_def sd_def p_def q_def
    by (rule refl)
  have u: "u = v - a / 3" by (simp add: v_def)
  have vroot: "v ^ 3 + p * v + q = 0"
    using root unfolding depressed_cubic [of u a b c] p_def q_def v_def .
  consider (neg) "?disc < 0" | (zero) "?disc = 0" | (pos) "0 < ?disc"
    by linarith
  then show ?thesis
  proof cases
    case neg
    have "v = t1 * cos (phi / 3) \<or> v = t1 * cos ((phi + 2 * pi) / 3)
        \<or> v = t1 * cos ((phi + 2 * 2 * pi) / 3)"
      using trig_roots [OF neg vroot]
      unfolding t1_def phi_def t'_def r_def mp3_def .
    then have "u \<in> set (filter reduce [t1 * cos (phi / 3) - a / 3, t1 * cos ((phi + 2 * pi) / 3) - a / 3,
                           t1 * cos ((phi + 2 * 2 * pi) / 3) - a / 3])"
      using red unfolding u by auto
    then show ?thesis
      unfolding cr using neg by simp
  next
    case zero
    have "u0 = crt (- (q / 2))"
      by (simp add: u0_def crt_minus)
    with repeated_root [OF zero vroot]
    have "u \<in> set (filter reduce [2 * u0 - a / 3, - u0 - a / 3])"
      using red unfolding u by auto
    then show ?thesis
      unfolding cr using zero by simp
  next
    case pos
    have "v = crt (- (q / 2) + sd) - crt (q / 2 + sd)"
      unfolding sd_def using one_real_root [OF pos vroot cardano_root [OF pos]] .
    then have "u \<in> set (filter reduce [crt (- (q / 2) + sd) - crt (q / 2 + sd) - a / 3])"
      using red unfolding u by auto
    then show ?thesis
      unfolding cr using pos by simp
  qed
qed

lemma degenerateRoots_complete:
  assumes root: "a * u ^ 2 + b * u + c = 0" and red: "reduce u" and nonconst: "\<not> (a = 0 \<and> b = 0)"
  shows "u \<in> set (degenerateRoots a b c)"
proof (cases "a = 0")
  case True
  then have "b \<noteq> 0" using nonconst by simp
  then have "u = - c / b" using root True by (simp add: field_simps)
  then show ?thesis
    using True \<open>b \<noteq> 0\<close> red by (simp add: degenerateRoots_def)
next
  case False
  have sq: "(2 * a * u + b) ^ 2 = b * b - 4 * a * c"
  proof -
    have "(2 * a * u + b) ^ 2 = 4 * a * (a * u ^ 2 + b * u + c) + (b * b - 4 * a * c)"
      by (simp add: power2_eq_square algebra_simps)
    then show ?thesis using root by simp
  qed
  then have nonneg: "\<not> b * b - 4 * a * c < 0"
    by (metis not_le zero_le_power2)
  have "sqrt (b * b - 4 * a * c) = \<bar>2 * a * u + b\<bar>"
    using sq by (metis real_sqrt_abs)
  then have "2 * a * u + b = sqrt (b * b - 4 * a * c) \<or> 2 * a * u + b = - sqrt (b * b - 4 * a * c)"
    by linarith
  then have "u = (sqrt (b * b - 4 * a * c) - b) / (2 * a) \<or> u = (- b - sqrt (b * b - 4 * a * c)) / (2 * a)"
    using False by (auto simp: field_simps)
  then show ?thesis
    using False nonneg red by (auto simp: degenerateRoots_def Let_def)
qed

lemma cubicRoots_reduce: "w \<in> set (cubicRoots a b c) \<Longrightarrow> reduce w"
  by (auto simp: cubicRoots_def Let_def split: if_splits)

lemma degenerateRoots_reduce: "w \<in> set (degenerateRoots a b c) \<Longrightarrow> reduce w"
  by (auto simp: degenerateRoots_def Let_def split: if_splits)


lemma roots_complete:
  assumes "4 \<le> length points" and "coefficients points line = (d, a, b, c)"
    and "d * u ^ 3 + a * u ^ 2 + b * u + c = 0" and "reduce u" and "\<not> (d = 0 \<and> a = 0 \<and> b = 0)"
  shows "\<exists>rs. roots points line = Inr rs \<and> u \<in> set rs \<and> (\<forall>w \<in> set rs. reduce w)"
proof (cases "d = 0")
  case True
  then have "u \<in> set (degenerateRoots a b c)"
    using assms(3-5) by (intro degenerateRoots_complete) simp_all
  then show ?thesis
    using True degenerateRoots_reduce by (auto simp: roots_coefficients [OF assms(1,2)])
next
  case False
  have "u ^ 3 + (a / d) * u ^ 2 + (b / d) * u + c / d = (d * u ^ 3 + a * u ^ 2 + b * u + c) / d"
    using False by (simp add: field_simps)
  then have "u ^ 3 + (a / d) * u ^ 2 + (b / d) * u + c / d = 0"
    using assms(3) by simp
  then have "u \<in> set (cubicRoots (a / d) (b / d) (c / d))"
    using assms(4) by (rule cubicRoots_complete)
  then show ?thesis
    using False cubicRoots_reduce by (auto simp: roots_coefficients [OF assms(1,2)])
qed


lemma atan2_xaxis: "atan2 0 1 = 0"
  by (simp add: atan2_def)

lemma atan2_yaxis: "atan2 1 0 = pi / 2"
  by (simp add: atan2_def)

lemma align_xaxis:
  "align pts \<lparr>p1 = \<lparr>x = 0, y = 0\<rparr>, p2 = \<lparr>x = 1, y = 0\<rparr>\<rparr> = pts"
  by (simp add: align_def atan2_xaxis Let_def map_idI)

lemma align_yaxis:
  "align pts \<lparr>p1 = \<lparr>x = 0, y = 0\<rparr>, p2 = \<lparr>x = 0, y = 1\<rparr>\<rparr> = map (\<lambda>v. \<lparr>x = y v, y = - x v\<rparr>) pts"
  by (simp add: align_def atan2_yaxis Let_def)

text \<open>The coefficients that \<^verbatim>\<open>getValueAt\<close> hands to the solver, up to the sign \<open>sg\<close>.\<close>

lemma getValueAt_coefficients:
  fixes axis :: nat and v :: real and points :: "point list"
  assumes "length points = 4"
  defines "line \<equiv> (if axis = 1 then \<lparr>p1 = \<lparr>x = 0, y = 0\<rparr>, p2 = \<lparr>x = 0, y = 1\<rparr>\<rparr>
                     else \<lparr>p1 = \<lparr>x = 0, y = 0\<rparr>, p2 = \<lparr>x = 1, y = 0\<rparr>\<rparr>)"
  defines "sg \<equiv> (if axis = 1 then - 1 else 1 :: real)"
  defines "w \<equiv> (\<lambda>i. sg * (coord axis (points ! i) - v))"
  shows "coefficients (map (\<lambda>p. \<lparr>x = y p - v, y = x p - v\<rparr>) points) line =
           (- w 0 + 3 * w 1 - 3 * w 2 + w 3, 3 * w 0 - 6 * w 1 + 3 * w 2, - 3 * w 0 + 3 * w 1, w 0)"
proof (cases "axis = 1")
  case True
  then show ?thesis
    using assms(1)
    by (simp add: coefficients_def Let_def line_def sg_def w_def coord_def align_yaxis)
next
  case False
  then show ?thesis
    using assms(1)
    by (simp add: coefficients_def Let_def line_def sg_def w_def coord_def align_xaxis)
qed

lemma bernstein_power_basis:
  fixes w0 w1 w2 w3 u :: real
  shows "(- w0 + 3 * w1 - 3 * w2 + w3) * u ^ 3 + (3 * w0 - 6 * w1 + 3 * w2) * u ^ 2
           + (- 3 * w0 + 3 * w1) * u + w0
         = (1 - u) * (1 - u) * (1 - u) * w0 + (1 - u) * (1 - u) * u * 3 * w1
           + (1 - u) * u * u * 3 * w2 + u * u * u * w3"
  by (simp add: power3_eq_cube power2_eq_square algebra_simps)

lemma computeCubic_coord:
  assumes "length points = 4" and "computeCubic u points = Inr pt"
  shows "coord axis pt =
           (1 - u) * (1 - u) * (1 - u) * coord axis (points ! 0)
         + (1 - u) * (1 - u) * u * 3 * coord axis (points ! 1)
         + (1 - u) * u * u * 3 * coord axis (points ! 2)
         + u * u * u * coord axis (points ! 3)"
  using assms by (auto simp: computeCubic_def Let_def coord_def)

lemma mapE_map:
  assumes "\<And>v. v \<in> set vs \<Longrightarrow> f v = Inr (g v)"
  shows "mapE f vs = Inr (map g vs)"
  using assms by (induction vs) simp_all

text \<open>
  The formulas of the solver, read over the real numbers: for a curve whose coordinate on the
  axis is not the same at all four control points, \<^verbatim>\<open>getValueAt\<close>, asked for the
  coordinate of the curve at \<open>t0\<close> in \<open>[0, 1]\<close>, has an entry whose point is the point of the
  curve at \<open>t0\<close>. This is a fact about the formulas and not about their evaluation in
  doubles. There the coefficients are rounded before \<^verbatim>\<open>d == 0\<close> and \<^verbatim>\<open>a == 0\<close> are
  tested, and the cosine of the double next to \<open>-\<pi>/2\<close> is not zero, so that a root can be
  lost; the source marks the test of \<open>d\<close> as a source of such errors.
\<close>

lemma getValueAt_round_trip_reals:
  assumes len: "length points = 4" and t0: "0 \<le> t0" "t0 \<le> 1"
    and pt0: "computeCubic t0 points = Inr pt0"
    and nonconst: "\<not> (coord axis (points ! 1) = coord axis (points ! 0)
                     \<and> coord axis (points ! 2) = coord axis (points ! 0)
                     \<and> coord axis (points ! 3) = coord axis (points ! 0))"
  shows "\<exists>res. getValueAt (coord axis pt0) points axis = Inr res
           \<and> (\<exists>r \<in> set res. 0 \<le> t r \<and> t r \<le> 1 \<and> point r = pt0)
           \<and> (\<forall>r \<in> set res. 0 \<le> t r \<and> t r \<le> 1 \<and> computeCubic (t r) points = Inr (point r))"
proof -
  define v where "v = coord axis pt0"
  define line where "line = (if axis = 1 then \<lparr>p1 = \<lparr>x = 0, y = 0\<rparr>, p2 = \<lparr>x = 0, y = 1\<rparr>\<rparr>
                     else \<lparr>p1 = \<lparr>x = 0, y = 0\<rparr>, p2 = \<lparr>x = 1, y = 0\<rparr>\<rparr>)"
  define sg where "sg = (if axis = 1 then - 1 else 1 :: real)"
  define w where "w = (\<lambda>i. sg * (coord axis (points ! i) - v))"
  define xcoords where "xcoords = map (\<lambda>p. \<lparr>x = y p - v, y = x p - v\<rparr>) points"
  define curve where "curve = (\<lambda>u. \<lparr>x = (1 - u) * (1 - u) * (1 - u) * x (points ! 0)
         + (1 - u) * (1 - u) * u * 3 * x (points ! 1)
         + (1 - u) * u * u * 3 * x (points ! 2) + u * u * u * x (points ! 3),
       y = (1 - u) * (1 - u) * (1 - u) * y (points ! 0)
         + (1 - u) * (1 - u) * u * 3 * y (points ! 1)
         + (1 - u) * u * u * 3 * y (points ! 2) + u * u * u * y (points ! 3)\<rparr>)"
  have cc: "computeCubic u points = Inr (curve u)" for u
    using len by (simp add: computeCubic_def Let_def curve_def)
  have co: "coefficients xcoords line =
      (- w 0 + 3 * w 1 - 3 * w 2 + w 3, 3 * w 0 - 6 * w 1 + 3 * w 2, - 3 * w 0 + 3 * w 1, w 0)"
    unfolding xcoords_def line_def w_def sg_def by (rule getValueAt_coefficients [OF len])
  have sg: "sg \<noteq> 0" by (simp add: sg_def)
  have "(- w 0 + 3 * w 1 - 3 * w 2 + w 3) * t0 ^ 3 + (3 * w 0 - 6 * w 1 + 3 * w 2) * t0 ^ 2
           + (- 3 * w 0 + 3 * w 1) * t0 + w 0
        = sg * ((1 - t0) * (1 - t0) * (1 - t0) * coord axis (points ! 0)
            + (1 - t0) * (1 - t0) * t0 * 3 * coord axis (points ! 1)
            + (1 - t0) * t0 * t0 * 3 * coord axis (points ! 2)
            + t0 * t0 * t0 * coord axis (points ! 3) - v)"
    unfolding bernstein_power_basis w_def by (simp add: algebra_simps)
  also have "\<dots> = 0"
    using computeCubic_coord [OF len pt0, of axis] by (simp add: v_def)
  finally have root: "(- w 0 + 3 * w 1 - 3 * w 2 + w 3) * t0 ^ 3 + (3 * w 0 - 6 * w 1 + 3 * w 2) * t0 ^ 2
           + (- 3 * w 0 + 3 * w 1) * t0 + w 0 = 0" .
  have nc: "\<not> (- w 0 + 3 * w 1 - 3 * w 2 + w 3 = 0 \<and> 3 * w 0 - 6 * w 1 + 3 * w 2 = 0
              \<and> - 3 * w 0 + 3 * w 1 = 0)"
  proof
    assume h: "- w 0 + 3 * w 1 - 3 * w 2 + w 3 = 0 \<and> 3 * w 0 - 6 * w 1 + 3 * w 2 = 0
              \<and> - 3 * w 0 + 3 * w 1 = 0"
    then have "w 1 = w 0" "w 2 = w 0" "w 3 = w 0" by linarith+
    then have "coord axis (points ! 1) = coord axis (points ! 0)
        \<and> coord axis (points ! 2) = coord axis (points ! 0)
        \<and> coord axis (points ! 3) = coord axis (points ! 0)"
      using sg by (simp add: w_def)
    with nonconst show False by simp
  qed
  have "4 \<le> length xcoords" using len by (simp add: xcoords_def)
  from roots_complete [OF this co root _ nc] t0
  obtain rs where rs: "roots xcoords line = Inr rs" "t0 \<in> set rs" "\<forall>u \<in> set rs. reduce u"
    by (auto simp: reduce_def)
  let ?res = "map (\<lambda>u. \<lparr>point = curve u, t = u\<rparr>) rs"
  have m: "mapE (\<lambda>u. bindE (computeCubic u points) (\<lambda>pt. Inr \<lparr>point = pt, t = u\<rparr>)) rs = Inr ?res"
    by (intro mapE_map) (simp add: cc)
  have "getValueAt v points axis =
      bindE (roots xcoords line)
        (mapE (\<lambda>u. bindE (computeCubic u points) (\<lambda>pt. Inr \<lparr>point = pt, t = u\<rparr>)))"
    unfolding getValueAt_def Let_def xcoords_def line_def by (rule refl)
  then have res: "getValueAt v points axis = Inr ?res"
    by (simp add: rs(1) m)
  have "curve t0 = pt0" using cc [of t0] pt0 by simp
  then have "\<exists>r \<in> set ?res. 0 \<le> t r \<and> t r \<le> 1 \<and> point r = pt0"
    using rs(2) t0 by (intro bexI [of _ "\<lparr>point = curve t0, t = t0\<rparr>"]) auto
  moreover have "\<forall>r \<in> set ?res. 0 \<le> t r \<and> t r \<le> 1 \<and> computeCubic (t r) points = Inr (point r)"
    using rs(3) by (auto simp: reduce_def cc)
  ultimately show ?thesis
    using res unfolding v_def by blast
qed





end
